theory Spec2Isabelle
  imports Main "HOL-Library.Word"
begin

unbundle bit_operations_syntax

section \<open>The block tree database (package blkdb)\<close>

text \<open>
  The embedded functions are those of package \<open>blkdb\<close> in
  \<^verbatim>\<open>src/rpc/rpcblockchain.go\<close>: the accessors of \<open>BlockTreeDB\<close>, the batch writer,
  the loader \<open>LoadBlockIndexGuts\<close> and \<open>InsertBlockIndex\<close>.  A Go slice is a
  \<open>byte list\<close>, a slice that may be \<open>nil\<close> an option of one, a Go \<open>error\<close> an
  option of \<open>error\<close> (\<open>None\<close> is \<open>nil\<close>), and a Go panic is the left summand of the
  result.
\<close>

subsection \<open>Bytes, hashes, errors\<close>

type_synonym byte = "8 word"
type_synonym bytes = "byte list"

text \<open>\<open>util.Hash\<close> is \<open>[32]byte\<close>: a hash is a byte list of length 32.\<close>

type_synonym Hash = "byte list"

datatype error = ErrNotFound | ErrIO | ErrDecode | ErrEOF

datatype panic = IndexOutOfRange | PanicMsg string

text \<open>The zero value \<open>util.Hash{}\<close>.\<close>

definition zeroHash :: Hash where
  "zeroHash = replicate 32 0"

text \<open>Modelled from the spec: \<open>Hash.IsNull\<close> is not part of the source file; the null
  hash is the all-zero hash (``previous-hash = all-zero sentinel'').\<close>

definition IsNull :: "Hash \<Rightarrow> bool" where
  "IsNull h = (h = zeroHash)"

subsection \<open>The key-value store adapter\<close>

text \<open>Modelled from the spec: the constants of package \<open>db\<close> are not part of the source
  file; they are single-byte category prefixes, pairwise distinct.\<close>

definition DbBlockFiles :: byte where "DbBlockFiles = 0x66"
definition DbTxIndex :: byte where "DbTxIndex = 0x74"
definition DbBlockIndex :: byte where "DbBlockIndex = 0x62"
definition DbFlag :: byte where "DbFlag = 0x46"
definition DbReindexFlag :: byte where "DbReindexFlag = 0x52"
definition DbLastBlock :: byte where "DbLastBlock = 0x6C"
definition DbMaxBlock :: byte where "DbMaxBlock = 0x6D"

text \<open>Modelled from the spec: \<open>db.DBWrapper\<close> is not part of the source file; it is an
  ordered byte-keyed store with \<open>get(key) -> bytes | NotFound\<close>, \<open>put\<close>, \<open>delete\<close>,
  \<open>exists\<close>, an atomic batch and a cursor in ascending key order.  The store is the list
  of its entries in ascending key order; a read of an absent key returns the \<open>nil\<close> slice
  together with \<open>ErrNotFound\<close> (the source's \<open>ReadBlockFileInfo\<close> tests the error of
  \<open>Read\<close> against \<open>leveldb.ErrNotFound\<close>).  The store of the model has no I/O
  failure: \<open>Write\<close>, \<open>Erase\<close> and the commit of a batch succeed and return \<open>nil\<close>, and
  the \<open>durable\<close> flag of a write has no effect on what is read back.\<close>

type_synonym DBWrapper = "(bytes \<times> bytes) list"

text \<open>Modelled from the spec: the order of the keys (``ordered byte-keyed storage
  engine''), bytewise and a proper prefix first.\<close>

fun bytes_less :: "bytes \<Rightarrow> bytes \<Rightarrow> bool" where
  "bytes_less _ [] = False"
| "bytes_less [] (y # ys) = True"
| "bytes_less (x # xs) (y # ys) = (x < y \<or> (x = y \<and> bytes_less xs ys))"

text \<open>Modelled from the spec: \<open>DBWrapper.Read\<close>, \<open>get(key) -> bytes | NotFound\<close>.\<close>

definition dbw_Read :: "DBWrapper \<Rightarrow> bytes \<Rightarrow> bytes option \<times> error option" where
  "dbw_Read dbw key =
     (case map_of dbw key of
        None \<Rightarrow> (None, Some ErrNotFound)
      | Some v \<Rightarrow> (Some v, None))"

text \<open>Modelled from the spec: \<open>DBWrapper.Write\<close>, \<open>put(key, value, durable)\<close>; the
  entry goes to its place in the key order, in place of an entry under the same key.\<close>

fun dbw_Write :: "DBWrapper \<Rightarrow> bytes \<Rightarrow> bytes \<Rightarrow> DBWrapper" where
  "dbw_Write [] key val = [(key, val)]"
| "dbw_Write ((k, v) # rest) key val =
     (if key = k then (key, val) # rest
      else if bytes_less key k then (key, val) # (k, v) # rest
      else (k, v) # dbw_Write rest key val)"

text \<open>Modelled from the spec: \<open>DBWrapper.Erase\<close>, \<open>delete(key, durable)\<close>.\<close>

definition dbw_Erase :: "DBWrapper \<Rightarrow> bytes \<Rightarrow> DBWrapper" where
  "dbw_Erase dbw key = filter (\<lambda>e. fst e \<noteq> key) dbw"

text \<open>Modelled from the spec: \<open>DBWrapper.Exists\<close>, \<open>exists(key) -> bool\<close>.\<close>

definition dbw_Exists :: "DBWrapper \<Rightarrow> bytes \<Rightarrow> bool" where
  "dbw_Exists dbw key = (map_of dbw key \<noteq> None)"

text \<open>Modelled from the spec: \<open>db.BatchWrapper\<close> and \<open>DBWrapper.WriteBatch\<close>.  A batch is
  the list of its writes, in the order they were added; the commit applies them in that
  order, all of them.\<close>

definition dbw_WriteBatch :: "DBWrapper \<Rightarrow> (bytes \<times> bytes) list \<Rightarrow> DBWrapper" where
  "dbw_WriteBatch dbw batch = foldl (\<lambda>d e. dbw_Write d (fst e) (snd e)) dbw batch"

text \<open>Modelled from the spec: the cursor of \<open>DBWrapper.Iterator\<close> (``\<open>seek(prefix)\<close>,
  \<open>valid()\<close>, \<open>key()\<close>, \<open>value()\<close>, \<open>next()\<close>'').  A cursor is the list of the entries
  still ahead, each with the key and the value that \<open>GetKey\<close> and \<open>GetVal\<close> return
  (\<open>None\<close> is the \<open>nil\<close> slice); it is valid while the list is not empty.  The cursor
  of a store yields its entries in key order.\<close>

type_synonym cursor = "(bytes option \<times> bytes option) list"

definition dbw_Iterator :: "DBWrapper \<Rightarrow> cursor" where
  "dbw_Iterator dbw = map (\<lambda>e. (Some (fst e), Some (snd e))) dbw"

text \<open>Modelled from the spec: \<open>Seek\<close> moves to the first entry whose key is not below
  the given one.\<close>

definition cursor_Seek :: "cursor \<Rightarrow> bytes \<Rightarrow> cursor" where
  "cursor_Seek c key =
     dropWhile (\<lambda>e. case fst e of None \<Rightarrow> False | Some k \<Rightarrow> bytes_less k key) c"

subsection \<open>Named flags\<close>

text \<open>A Go string is its bytes.\<close>

definition string_bytes :: "string \<Rightarrow> bytes" where
  "string_bytes s = map of_char s"

text \<open>\<open>WriteFlag\<close>: the key is \<open>DbFlag\<close> followed by the name; the value written is the
  byte \<open>'1'\<close> when \<open>value\<close> is false and \<open>'0'\<close> when it is true.\<close>

definition WriteFlag :: "DBWrapper \<Rightarrow> string \<Rightarrow> bool \<Rightarrow> DBWrapper" where
  "WriteFlag dbw name val =
     (let tmp = DbFlag # string_bytes name in
      if \<not> val then dbw_Write dbw tmp [0x31]
      else dbw_Write dbw tmp [0x30])"

text \<open>\<open>ReadFlag\<close>: the condition is \<open>b[0] == '1' && err == nil\<close>; the index expression is
  evaluated first, and panics on a slice with no element (\<open>nil\<close> or empty).\<close>

definition ReadFlag :: "DBWrapper \<Rightarrow> string \<Rightarrow> panic + bool" where
  "ReadFlag dbw name =
     (let tmp = DbFlag # string_bytes name;
          (b, err) = dbw_Read dbw tmp in
      case b of
        None \<Rightarrow> Inl IndexOutOfRange
      | Some [] \<Rightarrow> Inl IndexOutOfRange
      | Some (b0 # _) \<Rightarrow> if b0 = 0x31 \<and> err = None then Inr True else Inr False)"

subsection \<open>Fixed-width integers on the wire\<close>

text \<open>Modelled from the spec: \<open>util.WriteElements\<close> and \<open>util.ReadElements\<close> are not part
  of the source file; ``record values use fixed-width binary encodings mirroring each
  record's consensus wire layout (explicit field order and endianness per field)''.  An
  integer of \<open>n\<close> bytes is written as its \<open>n\<close> bytes in the given byte order and read
  back the same way; a read from a buffer that is too short is an error.  The consensus
  wire layout of integers is little-endian; the spec names big-endian for the file id in
  a key, so the byte order is an argument of every function that uses the codec.\<close>

datatype ByteOrder = LittleEndian | BigEndian

text \<open>Modelled from the spec: the \<open>n\<close> low bytes of an integer, lowest first, and the
  integer of a byte sequence read that way.\<close>

definition le_bytes :: "nat \<Rightarrow> 'a::len word \<Rightarrow> bytes" where
  "le_bytes n w = map (\<lambda>i. ucast (drop_bit (8 * i) w)) [0..<n]"

fun le_word :: "bytes \<Rightarrow> 'a::len word" where
  "le_word [] = 0"
| "le_word (b # bs) = ucast b OR push_bit 8 (le_word bs)"

text \<open>Modelled from the spec: \<open>util.WriteElements\<close> of one \<open>uint64\<close>, eight bytes.\<close>

definition WriteElements_uint64 :: "ByteOrder \<Rightarrow> 64 word \<Rightarrow> bytes" where
  "WriteElements_uint64 bo x =
     (case bo of LittleEndian \<Rightarrow> le_bytes 8 x | BigEndian \<Rightarrow> rev (le_bytes 8 x))"

text \<open>Modelled from the spec: \<open>util.ReadElements\<close> into one \<open>*int32\<close>: the next four
  bytes of the buffer, an error when there are fewer.\<close>

definition ReadElements_int32 :: "ByteOrder \<Rightarrow> bytes \<Rightarrow> error + 32 word" where
  "ReadElements_int32 bo buf =
     (if length buf < 4 then Inl ErrEOF
      else case bo of
        LittleEndian \<Rightarrow> Inr (le_word (take 4 buf))
      | BigEndian \<Rightarrow> Inr (le_word (rev (take 4 buf))))"

subsection \<open>File counters\<close>

text \<open>\<open>uint64(file)\<close> of an \<open>int32\<close> sign-extends: \<open>scast\<close>.  A \<open>nil\<close> slice and an empty
  one give the same \<open>bytes.Buffer\<close>.\<close>

definition buffer_of :: "bytes option \<Rightarrow> bytes" where
  "buffer_of data = (case data of None \<Rightarrow> [] | Some d \<Rightarrow> d)"

definition WriteMaxBlockFile :: "ByteOrder \<Rightarrow> DBWrapper \<Rightarrow> 32 word \<Rightarrow> DBWrapper" where
  "WriteMaxBlockFile bo dbw file =
     dbw_Write dbw [DbMaxBlock] (WriteElements_uint64 bo (scast file))"

definition ReadMaxBlockFile :: "ByteOrder \<Rightarrow> DBWrapper \<Rightarrow> 32 word \<times> error option" where
  "ReadMaxBlockFile bo dbw =
     (let (data, err) = dbw_Read dbw [DbMaxBlock] in
      if err \<noteq> None then (- 2, err)
      else case ReadElements_int32 bo (buffer_of data) of
             Inl e \<Rightarrow> (- 2, Some e)
           | Inr lastFile \<Rightarrow> (lastFile, None))"

definition ReadLastBlockFile :: "ByteOrder \<Rightarrow> DBWrapper \<Rightarrow> 32 word \<times> error option" where
  "ReadLastBlockFile bo dbw =
     (let (data, err) = dbw_Read dbw [DbLastBlock] in
      if err \<noteq> None then (0, err)
      else case ReadElements_int32 bo (buffer_of data) of
             Inl e \<Rightarrow> (0, Some e)
           | Inr lastFile \<Rightarrow> (lastFile, None))"

definition WriteReindexing :: "DBWrapper \<Rightarrow> bool \<Rightarrow> DBWrapper" where
  "WriteReindexing dbw reindexing =
     (if reindexing then dbw_Write dbw [DbReindexFlag] [1]
      else dbw_Erase dbw [DbReindexFlag])"

definition ReadReindexing :: "DBWrapper \<Rightarrow> bool" where
  "ReadReindexing dbw = dbw_Exists dbw [DbReindexFlag]"

subsection \<open>Block file info and the transaction index\<close>

text \<open>\<open>block.BlockFileInfo\<close> and \<open>block.DiskTxPos\<close> and their \<open>Serialize\<close> and
  \<open>Unserialize\<close> are not part of the source file: the types are type variables, the
  codecs are arguments.  \<open>Serialize\<close> gives the bytes or an error, \<open>Unserialize\<close> the
  value it filled in together with its error.\<close>

definition ReadBlockFileInfo ::
  "ByteOrder \<Rightarrow> (bytes \<Rightarrow> 'fi \<times> error option) \<Rightarrow> DBWrapper \<Rightarrow> 32 word
     \<Rightarrow> panic + ('fi option \<times> error option)" where
  "ReadBlockFileInfo bo unser dbw file =
     (let keyBuf = DbBlockFiles # WriteElements_uint64 bo (scast file);
          (vbytes, err) = dbw_Read dbw keyBuf in
      if err = Some ErrNotFound then Inr (None, None)
      else if err \<noteq> None then Inl (PanicMsg ''read failed ....'')
      else (let (bfi, e) = unser (buffer_of vbytes) in Inr (Some bfi, e)))"

definition ReadTxIndex ::
  "(bytes \<Rightarrow> 'pos \<times> error option) \<Rightarrow> DBWrapper \<Rightarrow> Hash
     \<Rightarrow> panic + ('pos option \<times> error option)" where
  "ReadTxIndex unser dbw txid =
     (let tmp = DbTxIndex # txid;
          (vdata, err) = dbw_Read dbw tmp in
      if err \<noteq> None then Inl (PanicMsg ''Error: ReadTxIndex======'')
      else case vdata of
             None \<Rightarrow> Inr (None, None)
           | Some v \<Rightarrow> (let (dtp, e) = unser v in Inr (Some dtp, e)))"

text \<open>The two loops of \<open>WriteBatchSync\<close> add one write per element to the batch and
  return at the first \<open>Serialize\<close> error.  The key of every file info is \<open>DbBlockFiles\<close>
  followed by \<open>uint64(0)\<close>.\<close>

type_synonym batch = "(bytes \<times> bytes) list"

fun batch_fileInfoList ::
  "ByteOrder \<Rightarrow> ('fi \<Rightarrow> error + bytes) \<Rightarrow> 'fi list \<Rightarrow> batch \<Rightarrow> error + batch" where
  "batch_fileInfoList bo ser [] b = Inr b"
| "batch_fileInfoList bo ser (v # vs) b =
     (case ser v of
        Inl err \<Rightarrow> Inl err
      | Inr valueBuf \<Rightarrow>
          batch_fileInfoList bo ser vs
            (b @ [(DbBlockFiles # WriteElements_uint64 bo 0, valueBuf)]))"

fun batch_blockIndexes ::
  "('bi \<Rightarrow> Hash) \<Rightarrow> ('bi \<Rightarrow> error + bytes) \<Rightarrow> 'bi list \<Rightarrow> batch \<Rightarrow> error + batch" where
  "batch_blockIndexes hashOf ser [] b = Inr b"
| "batch_blockIndexes hashOf ser (v # vs) b =
     (case ser v of
        Inl err \<Rightarrow> Inl err
      | Inr valueBuf \<Rightarrow>
          batch_blockIndexes hashOf ser vs (b @ [(DbBlockIndex # hashOf v, valueBuf)]))"

definition WriteBatchSync ::
  "ByteOrder \<Rightarrow> ('fi \<Rightarrow> error + bytes) \<Rightarrow> ('bi \<Rightarrow> Hash) \<Rightarrow> ('bi \<Rightarrow> error + bytes)
     \<Rightarrow> DBWrapper \<Rightarrow> 'fi list \<Rightarrow> 64 word \<Rightarrow> 'bi list \<Rightarrow> DBWrapper \<times> error option" where
  "WriteBatchSync bo serFI hashOf serBI dbw fileInfoList lastFile blockIndexes =
     (case batch_fileInfoList bo serFI fileInfoList [] of
        Inl err \<Rightarrow> (dbw, Some err)
      | Inr b1 \<Rightarrow>
          (case batch_blockIndexes hashOf serBI blockIndexes
                  (b1 @ [([DbLastBlock], WriteElements_uint64 bo lastFile)]) of
             Inl err \<Rightarrow> (dbw, Some err)
           | Inr b2 \<Rightarrow> (dbw_WriteBatch dbw b2, None)))"


subsection \<open>Block index nodes\<close>

text \<open>Modelled from the spec: \<open>block.BlockHeader\<close> and \<open>blockindex.BlockIndex\<close> are not
  part of the source file; the fields are those the loader copies (``hash, previous-block
  hash, height, file id, data offset, undo offset, header fields (version, merkle root,
  time, bits, nonce), status bitmask, transaction count'') and the parent reference.
  A \<open>*BlockIndex\<close> is an address into the heap of nodes, \<open>None\<close> is the \<open>nil\<close> pointer.
  \<open>GetBlockHash\<close> is the record's hash, \<open>SetBlockHash\<close> stores it.\<close>

type_synonym ptr = "nat option"

record BlockHeader =
  Version :: "32 word"
  HashPrevBlock :: Hash
  MerkleRoot :: Hash
  Time :: "32 word"
  Bits :: "32 word"
  Nonce :: "32 word"

record BlockIndex =
  Header :: BlockHeader
  blockHash :: Hash
  Prev :: ptr
  Height :: "32 word"
  File :: "32 word"
  DataPos :: "32 word"
  UndoPos :: "32 word"
  Status :: "32 word"
  TxCount :: "32 word"

text \<open>Modelled from the spec: \<open>block.NewBlockHeader\<close> and \<open>blockindex.NewBlockIndex\<close>
  are not part of the source file; a new node holds ``default values'', the zero
  values of its fields around the given header.\<close>

definition NewBlockHeader :: BlockHeader where
  "NewBlockHeader =
     \<lparr>Version = 0, HashPrevBlock = zeroHash, MerkleRoot = zeroHash,
      Time = 0, Bits = 0, Nonce = 0\<rparr>"

definition NewBlockIndex :: "BlockHeader \<Rightarrow> BlockIndex" where
  "NewBlockIndex hdr =
     \<lparr>Header = hdr, blockHash = zeroHash, Prev = None, Height = 0, File = 0,
      DataPos = 0, UndoPos = 0, Status = 0, TxCount = 0\<rparr>"

text \<open>Modelled from the spec: \<open>BlockIndex.GetBlockHash\<close> is not part of the source file;
  it is the hash of the record (``hash (32-byte identity)'').\<close>

definition GetBlockHash :: "BlockIndex \<Rightarrow> Hash" where
  "GetBlockHash bi = blockHash bi"

subsection \<open>The loader\<close>

text \<open>The loader works on the store, on the caller's map from hashes to node pointers
  and on the heap the pointers point into (a new node gets the next free address).\<close>

record loader_state =
  dbw :: DBWrapper
  heap :: "BlockIndex list"
  blkIdxMap :: "Hash \<rightharpoonup> ptr"

text \<open>\<open>InsertBlockIndex\<close>: the entry of the map if there is one; \<open>nil\<close> for the null hash;
  otherwise a new node, entered into the map.\<close>

definition InsertBlockIndex :: "Hash \<Rightarrow> loader_state \<Rightarrow> ptr \<times> loader_state" where
  "InsertBlockIndex hash st =
     (case blkIdxMap st hash of
        Some i \<Rightarrow> (i, st)
      | None \<Rightarrow>
          if IsNull hash then (None, st)
          else (Some (length (heap st)),
                st\<lparr>heap := heap st @ [NewBlockIndex NewBlockHeader],
                   blkIdxMap := (blkIdxMap st)(hash \<mapsto> Some (length (heap st)))\<rparr>))"

text \<open>The assignments to \<open>newIndex\<close>, in the order of the source.\<close>

definition fill_newIndex :: "ptr \<Rightarrow> BlockIndex \<Rightarrow> BlockIndex \<Rightarrow> BlockIndex" where
  "fill_newIndex pre bi newIndex =
     (let n1 = newIndex\<lparr>Prev := pre\<rparr>;
          n2 = n1\<lparr>blockHash := GetBlockHash bi\<rparr>;
          n3 = n2\<lparr>Height := Height bi\<rparr>;
          n4 = n3\<lparr>File := File bi\<rparr>;
          n5 = n4\<lparr>DataPos := DataPos bi\<rparr>;
          n6 = n5\<lparr>UndoPos := UndoPos bi\<rparr>;
          h1 = (Header n6)\<lparr>Version := Version (Header bi)\<rparr>;
          h2 = h1\<lparr>HashPrevBlock := HashPrevBlock (Header bi)\<rparr>;
          h3 = h2\<lparr>MerkleRoot := MerkleRoot (Header bi)\<rparr>;
          h4 = h3\<lparr>Time := Time (Header bi)\<rparr>;
          h5 = h4\<lparr>Bits := Bits (Header bi)\<rparr>;
          h6 = h5\<lparr>Nonce := Nonce (Header bi)\<rparr>;
          n7 = n6\<lparr>Header := h6\<rparr>;
          n8 = n7\<lparr>Status := Status bi\<rparr>
      in n8\<lparr>TxCount := TxCount bi\<rparr>)"

text \<open>One iteration of the loop of \<open>LoadBlockIndexGuts\<close>, at the cursor entry \<open>e\<close>: it
  either leaves the function (a \<open>return\<close>, the \<open>break\<close>, which is followed by
  \<open>return true\<close>, or a panic) or goes on with \<open>cursor.Next()\<close>.
  \<open>Unserialize\<close> of a block index record (the argument \<open>unser\<close>: the value it filled in
  and its error) and \<open>CheckProofOfWork\<close> with the network parameters (\<open>checkPoW\<close>, on the
  hash and the bits) are not part of the source file and are arguments.  The error of
  \<open>Unserialize\<close> is logged and not looked at again.  \<open>k[0]\<close> panics on an empty key.\<close>

datatype step_result = Stop "panic + bool" loader_state | Continue loader_state

definition load_step ::
  "(bytes \<Rightarrow> BlockIndex \<times> error option) \<Rightarrow> (Hash \<Rightarrow> 32 word \<Rightarrow> bool)
     \<Rightarrow> bytes option \<times> bytes option \<Rightarrow> loader_state \<Rightarrow> step_result" where
  "load_step unser checkPoW e st =
     (case fst e of
        None \<Rightarrow> Stop (Inr True) st
      | Some [] \<Rightarrow> Stop (Inl IndexOutOfRange) st
      | Some (k0 # ks) \<Rightarrow>
          if k0 \<noteq> DbBlockIndex then Stop (Inr True) st
          else (case snd e of
            None \<Rightarrow> Stop (Inr False) st
          | Some v \<Rightarrow>
              (let bi = fst (unser v) in
               if TxCount bi = 0
               then Continue (st\<lparr>dbw := dbw_Erase (dbw st) (k0 # ks)\<rparr>)
               else (case InsertBlockIndex (GetBlockHash bi) st of
                 (None, st1) \<Rightarrow> Continue st1
               | (Some a, st1) \<Rightarrow>
                   (let (pre, st2) = InsertBlockIndex (HashPrevBlock (Header bi)) st1;
                        st3 = st2\<lparr>heap := (heap st2)[a := fill_newIndex pre bi (heap st2 ! a)]\<rparr>
                    in if \<not> checkPoW (GetBlockHash bi) (Bits (Header bi))
                       then Stop (Inr False) st3
                       else Continue st3)))))"

fun load_loop ::
  "(bytes \<Rightarrow> BlockIndex \<times> error option) \<Rightarrow> (Hash \<Rightarrow> 32 word \<Rightarrow> bool)
     \<Rightarrow> cursor \<Rightarrow> loader_state \<Rightarrow> (panic + bool) \<times> loader_state" where
  "load_loop unser checkPoW [] st = (Inr True, st)"
| "load_loop unser checkPoW (e # rest) st =
     (case load_step unser checkPoW e st of
        Stop r st' \<Rightarrow> (r, st')
      | Continue st' \<Rightarrow> load_loop unser checkPoW rest st')"

definition LoadBlockIndexGuts ::
  "(bytes \<Rightarrow> BlockIndex \<times> error option) \<Rightarrow> (Hash \<Rightarrow> 32 word \<Rightarrow> bool)
     \<Rightarrow> loader_state \<Rightarrow> (panic + bool) \<times> loader_state" where
  "LoadBlockIndexGuts unser checkPoW st =
     load_loop unser checkPoW
       (cursor_Seek (dbw_Iterator (dbw st)) (DbBlockIndex # zeroHash)) st"

text \<open>A sample instance of the loader's two arguments, for running it on concrete
  stores.  A value of four bytes \<open>[h, p, b, n]\<close> decodes to the record whose hash is 32
  times \<open>h\<close>, whose previous hash is 32 times \<open>p\<close>, with bits \<open>b\<close> and transaction count
  \<open>n\<close>; any other value fails to decode and leaves the record as \<open>NewBlockIndex\<close> made
  it.  The sample proof-of-work check accepts a hash whose last byte is at most the
  bits.\<close>

definition sample_Unserialize :: "bytes \<Rightarrow> BlockIndex \<times> error option" where
  "sample_Unserialize v =
     (case v of
        [h, p, b, n] \<Rightarrow>
          ((NewBlockIndex (NewBlockHeader\<lparr>HashPrevBlock := replicate 32 p, Bits := ucast b\<rparr>))
             \<lparr>blockHash := replicate 32 h, TxCount := ucast n\<rparr>, None)
      | _ \<Rightarrow> (NewBlockIndex NewBlockHeader, Some ErrDecode))"

definition sample_CheckProofOfWork :: "Hash \<Rightarrow> 32 word \<Rightarrow> bool" where
  "sample_CheckProofOfWork h bits = (h \<noteq> [] \<and> ucast (last h) \<le> bits)"

text \<open>The store row and the cursor entry of the sample record \<open>[h, p, b, n]\<close>, under the
  key made of its hash.\<close>

definition sample_row :: "byte \<Rightarrow> byte \<Rightarrow> byte \<Rightarrow> byte \<Rightarrow> bytes \<times> bytes" where
  "sample_row h p b n = (DbBlockIndex # replicate 32 h, [h, p, b, n])"

definition sample_entry :: "byte \<Rightarrow> byte \<Rightarrow> byte \<Rightarrow> byte \<Rightarrow> bytes option \<times> bytes option" where
  "sample_entry h p b n = (Some (DbBlockIndex # replicate 32 h), Some [h, p, b, n])"

definition empty_state :: "DBWrapper \<Rightarrow> loader_state" where
  "empty_state d = \<lparr>dbw = d, heap = [], blkIdxMap = Map.empty\<rparr>"

text \<open>Notions for stating the loader's properties.  An entry is in the scanned range
  when its key starts with \<open>DbBlockIndex\<close>; the scan covers the entries up to the first
  one that is not.  \<open>lookup_ptr\<close> reads a pointer off the map, \<open>nil\<close> when there is no
  entry.  A state is well formed when every entry of the map points to a node of the
  heap and no two hashes share a node.\<close>

definition in_range :: "bytes option \<times> bytes option \<Rightarrow> bool" where
  "in_range e = (case fst e of Some (k0 # ks) \<Rightarrow> k0 = DbBlockIndex | _ \<Rightarrow> False)"

definition scanned :: "cursor \<Rightarrow> cursor" where
  "scanned c = takeWhile in_range c"

definition lookup_ptr :: "(Hash \<rightharpoonup> ptr) \<Rightarrow> Hash \<Rightarrow> ptr" where
  "lookup_ptr m h = (case m h of None \<Rightarrow> None | Some p \<Rightarrow> p)"

definition wf_state :: "loader_state \<Rightarrow> bool" where
  "wf_state st =
     ((\<forall>h p. blkIdxMap st h = Some p \<longrightarrow> (\<exists>a. p = Some a \<and> a < length (heap st))) \<and>
      (\<forall>h h' p. blkIdxMap st h = Some p \<and> blkIdxMap st h' = Some p \<longrightarrow> h = h'))"

text \<open>The record an entry decodes to.\<close>

definition record_of :: "(bytes \<Rightarrow> BlockIndex \<times> error option) \<Rightarrow> bytes option \<times> bytes option \<Rightarrow> BlockIndex" where
  "record_of unser e = fst (unser (buffer_of (snd e)))"

definition step_state :: "step_result \<Rightarrow> loader_state" where
  "step_state r = (case r of Stop x st \<Rightarrow> st | Continue st \<Rightarrow> st)"

text \<open>The node at address \<open>a\<close> is the node of the record \<open>bi\<close>: the map sends the
  record's hash to \<open>a\<close>, the node holds the record's fields, and its parent reference
  is what the map holds for the record's previous hash (\<open>nil\<close> when it holds nothing,
  which is the case for the null hash only).\<close>

definition node_of :: "BlockIndex \<Rightarrow> nat \<Rightarrow> loader_state \<Rightarrow> bool" where
  "node_of bi a st =
     (blkIdxMap st (GetBlockHash bi) = Some (Some a) \<and> a < length (heap st) \<and>
      heap st ! a = bi\<lparr>Prev := lookup_ptr (blkIdxMap st) (HashPrevBlock (Header bi))\<rparr> \<and>
      (blkIdxMap st (HashPrevBlock (Header bi)) = None \<longrightarrow> IsNull (HashPrevBlock (Header bi))))"

text \<open>The entry \<open>e\<close> does not carry another record under the hash of \<open>bi\<close>: when it is
  an entry of the block index table with a value, a transaction count other than zero
  and the hash of \<open>bi\<close>, its record is \<open>bi\<close>.\<close>

definition agrees :: "(bytes \<Rightarrow> BlockIndex \<times> error option) \<Rightarrow> BlockIndex \<Rightarrow> bytes option \<times> bytes option \<Rightarrow> bool" where
  "agrees unser bi e =
     (in_range e \<and> snd e \<noteq> None \<and>
      GetBlockHash (record_of unser e) = GetBlockHash bi \<and> TxCount (record_of unser e) \<noteq> 0
        \<longrightarrow> record_of unser e = bi)"

text \<open>A state given by its store, its heap and the entries of its map.\<close>

definition sample_state :: "DBWrapper \<Rightarrow> BlockIndex list \<Rightarrow> (Hash \<times> ptr) list \<Rightarrow> loader_state" where
  "sample_state d hp m = \<lparr>dbw = d, heap = hp, blkIdxMap = map_of m\<rparr>"

text \<open>A second sample proof-of-work check, which accepts a hash whose last byte is below
  the bits (none when the bits are zero).\<close>

definition strict_CheckProofOfWork :: "Hash \<Rightarrow> 32 word \<Rightarrow> bool" where
  "strict_CheckProofOfWork h bits = (h \<noteq> [] \<and> ucast (last h) < bits)"

text \<open>The entries at which the body of the loop runs, in order: the loop visits an entry,
  and goes on to the next one when the iteration does not leave the function.\<close>

fun load_visits ::
  "(bytes \<Rightarrow> BlockIndex \<times> error option) \<Rightarrow> (Hash \<Rightarrow> 32 word \<Rightarrow> bool)
     \<Rightarrow> cursor \<Rightarrow> loader_state \<Rightarrow> cursor" where
  "load_visits unser checkPoW [] st = []"
| "load_visits unser checkPoW (e # rest) st =
     (case load_step unser checkPoW e st of
        Stop r st' \<Rightarrow> [e]
      | Continue st' \<Rightarrow> e # load_visits unser checkPoW rest st')"

text \<open>The entries that \<open>LoadBlockIndexGuts\<close> visits on a state, and the block index table
  of its store: the entries its cursor yields from the position of the \<open>Seek\<close> for as
  long as the key starts with \<open>DbBlockIndex\<close>.\<close>

definition visited ::
  "(bytes \<Rightarrow> BlockIndex \<times> error option) \<Rightarrow> (Hash \<Rightarrow> 32 word \<Rightarrow> bool)
     \<Rightarrow> loader_state \<Rightarrow> cursor" where
  "visited unser checkPoW st =
     load_visits unser checkPoW
       (cursor_Seek (dbw_Iterator (dbw st)) (DbBlockIndex # zeroHash)) st"

definition in_table :: "loader_state \<Rightarrow> cursor" where
  "in_table st = scanned (cursor_Seek (dbw_Iterator (dbw st)) (DbBlockIndex # zeroHash))"

text \<open>\<open>InsertBlockIndex\<close> returns a node for the hash \<open>h\<close> in the state \<open>st\<close>, not \<open>nil\<close>:
  the map holds a pointer that is not \<open>nil\<close> under \<open>h\<close>, or it holds nothing under \<open>h\<close>
  and \<open>h\<close> is not the null hash.\<close>

definition gets_node :: "loader_state \<Rightarrow> Hash \<Rightarrow> bool" where
  "gets_node st h = (fst (InsertBlockIndex h st) \<noteq> None)"

section \<open>Properties\<close>

lemma map_of_dbw_Write:
  "map_of (dbw_Write d key val) k = (if k = key then Some val else map_of d k)"
  by (induction d key val rule: dbw_Write.induct) auto

lemma dbw_Read_Write_same: "dbw_Read (dbw_Write d key val) key = (Some val, None)"
  by (simp add: dbw_Read_def map_of_dbw_Write)

lemma ReadFlag_WriteFlag: "ReadFlag (WriteFlag d name val) name = Inr (\<not> val)"
  by (simp add: ReadFlag_def WriteFlag_def Let_def dbw_Read_Write_same)

text \<open>
  C1 (the code at the failing input): on the empty store, \<open>WriteFlag("txindex", true)\<close>
  followed by \<open>ReadFlag("txindex")\<close> returns false: the writer stores \<open>'0'\<close> for true,
  the reader takes only \<open>'1'\<close> for true.
\<close>

theorem C1_write_true_reads_false:
  "ReadFlag (WriteFlag [] ''txindex'' True) ''txindex'' = Inr False"
  by (simp add: ReadFlag_def WriteFlag_def Let_def dbw_Read_def)

text \<open>
  C10 (the code at the failing input): on a store without the flag's key, \<open>ReadFlag\<close>
  does not return false, it panics: the first byte of the \<open>nil\<close> value is read before
  the error is looked at.
\<close>

theorem C10_absent_flag_panics:
  "ReadFlag [] ''txindex'' = Inl IndexOutOfRange"
  by (simp add: ReadFlag_def Let_def dbw_Read_def)

lemma le_bytes_8: "le_bytes 8 w = [ucast w, ucast (drop_bit 8 w), ucast (drop_bit 16 w), ucast (drop_bit 24 w),
   ucast (drop_bit 32 w), ucast (drop_bit 40 w), ucast (drop_bit 48 w), ucast (drop_bit 56 w)]"
  by (simp add: le_bytes_def upt_rec numeral_eq_Suc)

lemma le_word_le_bytes_scast: "le_word (take 4 (le_bytes 8 (scast (f :: 32 word) :: 64 word))) = f"
  apply (simp add: le_bytes_8)
  apply (rule bit_word_eqI)
  apply (auto simp add: bit_simps)
  done

lemma length_le_bytes: "length (le_bytes n w) = n"
  by (simp add: le_bytes_def)

text \<open>The counter of the highest block file under the two byte orders of the codec.
  With the little-endian codec, \<open>WriteMaxBlockFile(f)\<close> followed by \<open>ReadMaxBlockFile\<close>
  returns \<open>f\<close> and no error, for every \<open>int32\<close> \<open>f\<close>: the reader takes the first four of
  the eight bytes written, which are the low 32 bits of the sign-extended value.\<close>

lemma max_block_file_roundtrip_little_endian:
  "ReadMaxBlockFile LittleEndian (WriteMaxBlockFile LittleEndian d f) = (f, None)"
  by (simp add: ReadMaxBlockFile_def WriteMaxBlockFile_def dbw_Read_Write_same buffer_of_def
      ReadElements_int32_def WriteElements_uint64_def length_le_bytes le_word_le_bytes_scast)

text \<open>With a big-endian codec the first four bytes are the high half, and the reader
  returns 0 after 1 was written.\<close>

lemma big_endian_max_block_file:
  "ReadMaxBlockFile BigEndian (WriteMaxBlockFile BigEndian d 1) = (0, None)"
  by (simp add: ReadMaxBlockFile_def WriteMaxBlockFile_def dbw_Read_Write_same buffer_of_def
      ReadElements_int32_def WriteElements_uint64_def length_le_bytes le_bytes_8 drop_bit_eq_div)

text \<open>
  C8 (the code at the failing input): on a store without the transaction's key,
  \<open>ReadTxIndex\<close> panics: the \<open>ErrNotFound\<close> of the read takes the \<open>err != nil\<close> branch,
  before \<open>vdata == nil\<close> is tested.
\<close>

theorem C8_absent_txid_panics:
  "ReadTxIndex unser [] txid = Inl (PanicMsg ''Error: ReadTxIndex======'')"
  by (simp add: ReadTxIndex_def dbw_Read_def)

text \<open>Every error of the read is a panic; the error of the decoder is returned.\<close>

lemma ReadTxIndex_read_error:
  "snd (dbw_Read d (DbTxIndex # txid)) \<noteq> None \<Longrightarrow>
   ReadTxIndex unser d txid = Inl (PanicMsg ''Error: ReadTxIndex======'')"
  by (cases "dbw_Read d (DbTxIndex # txid)") (auto simp: ReadTxIndex_def)

lemma ReadTxIndex_decode_error:
  "map_of d (DbTxIndex # txid) = Some v \<Longrightarrow>
   ReadTxIndex unser d txid = Inr (Some (fst (unser v)), snd (unser v))"
  by (simp add: ReadTxIndex_def dbw_Read_def split: prod.splits)

lemma map_of_dbw_WriteBatch:
  "k \<notin> fst ` set b \<Longrightarrow> map_of (dbw_WriteBatch d b) k = map_of d k"
  unfolding dbw_WriteBatch_def
  by (induction b arbitrary: d) (auto simp: map_of_dbw_Write)

lemma batch_fileInfoList_keys:
  "batch_fileInfoList bo ser vs b = Inr b' \<Longrightarrow>
   fst ` set b' \<subseteq> fst ` set b \<union> {DbBlockFiles # WriteElements_uint64 bo 0}"
proof (induction vs arbitrary: b)
  case Nil
  then show ?case by auto
next
  case (Cons v vs)
  from Cons.prems obtain buf where buf: "ser v = Inr buf"
    and rest: "batch_fileInfoList bo ser vs (b @ [(DbBlockFiles # WriteElements_uint64 bo 0, buf)]) = Inr b'"
    by (auto split: sum.splits)
  from Cons.IH[OF rest] show ?case by auto
qed

lemma batch_blockIndexes_keys:
  "batch_blockIndexes hashOf ser vs b = Inr b' \<Longrightarrow>
   fst ` set b' \<subseteq> fst ` set b \<union> {DbBlockIndex # h | h. True}"
proof (induction vs arbitrary: b)
  case Nil
  then show ?case by auto
next
  case (Cons v vs)
  from Cons.prems obtain buf where buf: "ser v = Inr buf"
    and rest: "batch_blockIndexes hashOf ser vs (b @ [(DbBlockIndex # hashOf v, buf)]) = Inr b'"
    by (auto split: sum.splits)
  from Cons.IH[OF rest] show ?case by auto
qed

lemma WriteElements_uint64_one: "WriteElements_uint64 bo 1 \<noteq> WriteElements_uint64 bo 0"
  by (cases bo) (simp_all add: WriteElements_uint64_def le_bytes_8)

lemma WriteBatchSync_other_key:
  assumes "k \<noteq> DbBlockFiles # WriteElements_uint64 bo 0" "k \<noteq> [DbLastBlock]" "\<And>ks. k \<noteq> DbBlockIndex # ks"
  shows "map_of (fst (WriteBatchSync bo serFI hashOf serBI d infos lastFile bis)) k = map_of d k"
proof (cases "batch_fileInfoList bo serFI infos []")
  case (Inl e)
  then show ?thesis by (simp add: WriteBatchSync_def)
next
  case (Inr b1)
  note b1 = this
  show ?thesis
  proof (cases "batch_blockIndexes hashOf serBI bis (b1 @ [([DbLastBlock], WriteElements_uint64 bo lastFile)])")
    case (Inl e)
    then show ?thesis using b1 by (simp add: WriteBatchSync_def)
  next
    case (Inr b2)
    have "k \<notin> fst ` set b2"
      using batch_blockIndexes_keys[OF Inr] batch_fileInfoList_keys[OF b1] assms by auto
    then show ?thesis using b1 Inr by (simp add: WriteBatchSync_def map_of_dbw_WriteBatch)
  qed
qed

text \<open>
  C3 (the code at the failing input): after \<open>WriteBatchSync\<close> on the empty store, with any
  list of file infos, \<open>ReadBlockFileInfo(1)\<close> finds nothing: no file info is written
  under the key of file 1, every one goes to the key of file 0.
\<close>

theorem C3_file_one_not_written:
  "ReadBlockFileInfo bo unserFI
     (fst (WriteBatchSync bo serFI hashOf serBI [] infos lastFile bis)) 1 = Inr (None, None)"
proof -
  have "map_of (fst (WriteBatchSync bo serFI hashOf serBI [] infos lastFile bis))
          (DbBlockFiles # WriteElements_uint64 bo 1) = map_of [] (DbBlockFiles # WriteElements_uint64 bo 1)"
    by (rule WriteBatchSync_other_key)
       (simp_all add: WriteElements_uint64_one DbBlockFiles_def DbLastBlock_def DbBlockIndex_def)
  then show ?thesis
    by (simp add: ReadBlockFileInfo_def dbw_Read_def)
qed

text \<open>With file infos that are their own encoding, the second of two infos written is
  what \<open>ReadBlockFileInfo(0)\<close> returns.\<close>

lemma file_zero_holds_last_info:
  "ReadBlockFileInfo LittleEndian (\<lambda>v. (v, None))
     (fst (WriteBatchSync LittleEndian Inr hashOf serBI [] [[1], [2]] 1 [])) 0 =
   Inr (Some [2], None)"
  by (simp add: ReadBlockFileInfo_def WriteBatchSync_def dbw_WriteBatch_def dbw_Read_def
      buffer_of_def DbBlockFiles_def DbLastBlock_def)

subsection \<open>The loader: one insertion, one iteration\<close>

text \<open>\<open>LoadBlockIndexGuts\<close> is the loop on the cursor of the store, placed at the first
  key of the block index table.\<close>

lemma LoadBlockIndexGuts_load_loop:
  "LoadBlockIndexGuts unser pow st =
   load_loop unser pow (cursor_Seek (dbw_Iterator (dbw st)) (DbBlockIndex # zeroHash)) st"
  by (simp add: LoadBlockIndexGuts_def)


lemma fill_newIndex_eq: "fill_newIndex pre bi n = bi\<lparr>Prev := pre\<rparr>"
  by (cases bi; cases n; cases "Header bi"; cases "Header n")
     (simp add: fill_newIndex_def GetBlockHash_def Let_def)

lemma InsertBlockIndex_cases:
  assumes "InsertBlockIndex h st = (p, st')"
  obtains (found) "blkIdxMap st h = Some p" "st' = st"
  | (null) "blkIdxMap st h = None" "IsNull h" "p = None" "st' = st"
  | (new) "blkIdxMap st h = None" "\<not> IsNull h" "p = Some (length (heap st))"
      "st' = st\<lparr>heap := heap st @ [NewBlockIndex NewBlockHeader],
                blkIdxMap := (blkIdxMap st)(h \<mapsto> Some (length (heap st)))\<rparr>"
  using assms by (auto simp: InsertBlockIndex_def split: option.splits if_splits)

lemma InsertBlockIndex_wf:
  assumes "wf_state st" "InsertBlockIndex h st = (p, st')"
  shows "wf_state st'"
  using assms(2)
proof (cases rule: InsertBlockIndex_cases)
  case new
  have lt: "\<And>k q. blkIdxMap st k = Some q \<Longrightarrow> \<exists>a. q = Some a \<and> a < length (heap st)"
    using assms(1) by (auto simp: wf_state_def)
  have inj: "\<And>k k' q. blkIdxMap st k = Some q \<Longrightarrow> blkIdxMap st k' = Some q \<Longrightarrow> k = k'"
    using assms(1) unfolding wf_state_def by blast
  show ?thesis
    unfolding wf_state_def new(4)
    apply (intro conjI allI impI)
     apply (auto dest!: lt split: if_splits)[1]
    apply (auto dest: lt inj split: if_splits)[1]
    done
qed (use assms(1) in simp_all)

lemma InsertBlockIndex_facts:
  assumes "InsertBlockIndex h st = (p, st')"
  shows "dbw st' = dbw st"
    and "length (heap st) \<le> length (heap st')"
    and "a < length (heap st) \<Longrightarrow> heap st' ! a = heap st ! a"
    and "blkIdxMap st k = Some q \<Longrightarrow> blkIdxMap st' k = Some q"
    and "blkIdxMap st' k = Some q \<Longrightarrow> blkIdxMap st k = Some q \<or> (k = h \<and> \<not> IsNull h \<and> blkIdxMap st k = None)"
    and "p = lookup_ptr (blkIdxMap st') h"
    and "blkIdxMap st' h = None \<Longrightarrow> IsNull h"
    and "blkIdxMap st' k = Some q \<Longrightarrow> blkIdxMap st k = Some q \<or> q \<noteq> None"
  using assms
  by (cases rule: InsertBlockIndex_cases; auto simp: lookup_ptr_def nth_append split: if_splits)+

lemma InsertBlockIndex_ptr:
  assumes "wf_state st" "InsertBlockIndex h st = (Some a, st')"
  shows "a < length (heap st')" "blkIdxMap st' h = Some (Some a)"
  using assms(2) assms(1)
  by (cases rule: InsertBlockIndex_cases; auto simp: wf_state_def)+

lemma InsertBlockIndex_nonnull:
  assumes "wf_state st" "\<not> IsNull h" "InsertBlockIndex h st = (p, st')"
  shows "\<exists>a. p = Some a"
  using assms(3) assms(1,2)
  by (cases rule: InsertBlockIndex_cases; auto simp: wf_state_def)


lemma load_step_cases:
  obtains (out) r where "\<not> in_range e" "load_step unser pow e st = Stop r st" "r \<noteq> Inr False"
  | (noval) "in_range e" "snd e = None" "load_step unser pow e st = Stop (Inr False) st"
  | (zero) k v where "in_range e" "e = (Some k, Some v)" "TxCount (fst (unser v)) = 0"
      "load_step unser pow e st = Continue (st\<lparr>dbw := dbw_Erase (dbw st) k\<rparr>)"
  | (skip) k v st1 where "in_range e" "e = (Some k, Some v)" "TxCount (fst (unser v)) \<noteq> 0"
      "InsertBlockIndex (GetBlockHash (fst (unser v))) st = (None, st1)"
      "load_step unser pow e st = Continue st1"
  | (fill) k v a st1 pre st2 where "in_range e" "e = (Some k, Some v)"
      "TxCount (fst (unser v)) \<noteq> 0"
      "InsertBlockIndex (GetBlockHash (fst (unser v))) st = (Some a, st1)"
      "InsertBlockIndex (HashPrevBlock (Header (fst (unser v)))) st1 = (pre, st2)"
      "load_step unser pow e st =
         (if pow (GetBlockHash (fst (unser v))) (Bits (Header (fst (unser v))))
          then Continue (st2\<lparr>heap := (heap st2)[a := (fst (unser v))\<lparr>Prev := pre\<rparr>]\<rparr>)
          else Stop (Inr False) (st2\<lparr>heap := (heap st2)[a := (fst (unser v))\<lparr>Prev := pre\<rparr>]\<rparr>))"
proof (cases "in_range e")
  case False
  then have "\<exists>r. load_step unser pow e st = Stop r st \<and> r \<noteq> Inr False"
    by (auto simp: in_range_def load_step_def split: option.splits list.splits)
  with False out show ?thesis by blast
next
  case True
  then obtain ks where k: "fst e = Some (DbBlockIndex # ks)"
    by (auto simp: in_range_def split: option.splits list.splits)
  show ?thesis
  proof (cases "snd e")
    case None
    with True k noval show ?thesis by (simp add: load_step_def)
  next
    case (Some v)
    with k have e: "e = (Some (DbBlockIndex # ks), Some v)" by (cases e) simp
    let ?bi = "fst (unser v)"
    show ?thesis
    proof (cases "TxCount ?bi = 0")
      case True
      with e \<open>in_range e\<close> zero show ?thesis by (simp add: load_step_def)
    next
      case nz: False
      obtain p st1 where i1: "InsertBlockIndex (GetBlockHash ?bi) st = (p, st1)"
        by (cases "InsertBlockIndex (GetBlockHash ?bi) st")
      show ?thesis
      proof (cases p)
        case None
        with e nz i1 \<open>in_range e\<close> skip show ?thesis by (simp add: load_step_def)
      next
        case (Some a)
        obtain pre st2 where i2: "InsertBlockIndex (HashPrevBlock (Header ?bi)) st1 = (pre, st2)"
          by (cases "InsertBlockIndex (HashPrevBlock (Header ?bi)) st1")
        have "load_step unser pow e st =
         (if pow (GetBlockHash ?bi) (Bits (Header ?bi))
          then Continue (st2\<lparr>heap := (heap st2)[a := ?bi\<lparr>Prev := pre\<rparr>]\<rparr>)
          else Stop (Inr False) (st2\<lparr>heap := (heap st2)[a := ?bi\<lparr>Prev := pre\<rparr>]\<rparr>))"
          using e nz i1 i2 Some by (simp add: load_step_def fill_newIndex_eq)
        with e nz i1 i2 Some \<open>in_range e\<close> fill show ?thesis by blast
      qed
    qed
  qed
qed


lemma InsertBlockIndex_node_of:
  assumes "node_of bi a st" "InsertBlockIndex h st = (p, st')"
  shows "node_of bi a st'"
proof -
  let ?hp = "HashPrevBlock (Header bi)"
  note f = InsertBlockIndex_facts[OF assms(2)]
  have m: "blkIdxMap st' (GetBlockHash bi) = Some (Some a)"
    using assms(1) f(4) by (simp add: node_of_def)
  have a: "a < length (heap st)" using assms(1) by (simp add: node_of_def)
  have l: "blkIdxMap st' ?hp = blkIdxMap st ?hp"
  proof (cases "blkIdxMap st ?hp")
    case None
    then have "IsNull ?hp" using assms(1) by (simp add: node_of_def)
    with None f(5)[of ?hp] show ?thesis by (cases "blkIdxMap st' ?hp") auto
  next
    case (Some q)
    then show ?thesis using f(4) by simp
  qed
  show ?thesis
    using assms(1) m a l f(2) f(3)[OF a] by (simp add: node_of_def lookup_ptr_def)
qed

lemma wf_state_heap_update:
  "wf_state st \<Longrightarrow> wf_state (st\<lparr>heap := (heap st)[a := n]\<rparr>)"
  by (simp add: wf_state_def)

lemma wf_state_dbw_update:
  "wf_state st \<Longrightarrow> wf_state (st\<lparr>dbw := d\<rparr>)"
  by (simp add: wf_state_def)

lemma load_step_wf:
  assumes "wf_state st"
  shows "wf_state (step_state (load_step unser pow e st))"
proof (cases rule: load_step_cases[of e unser pow st])
  case (fill k v a st1 pre st2)
  have "wf_state st2"
    using InsertBlockIndex_wf[OF InsertBlockIndex_wf[OF assms fill(4)] fill(5)] .
  then show ?thesis
    using fill(6) by (simp add: step_state_def wf_state_heap_update)
qed (use assms in \<open>auto simp: step_state_def wf_state_dbw_update dest: InsertBlockIndex_wf\<close>)

lemma load_step_map_mono:
  assumes "blkIdxMap st h = Some q"
  shows "blkIdxMap (step_state (load_step unser pow e st)) h = Some q"
proof (cases rule: load_step_cases[of e unser pow st])
  case (fill k v a st1 pre st2)
  have "blkIdxMap st2 h = Some q"
    using InsertBlockIndex_facts(4)[OF fill(5)] InsertBlockIndex_facts(4)[OF fill(4)] assms by blast
  then show ?thesis using fill(6) by (simp add: step_state_def)
next
  case (skip k v st1)
  then show ?thesis using InsertBlockIndex_facts(4)[OF skip(4)] assms by (simp add: step_state_def)
qed (use assms in \<open>auto simp: step_state_def\<close>)

lemma load_step_new_key:
  assumes "blkIdxMap (step_state (load_step unser pow e st)) h = Some q"
  shows "blkIdxMap st h = Some q \<or>
         (\<not> IsNull h \<and> q \<noteq> None \<and>
          (\<exists>k v. e = (Some k, Some v) \<and> in_range e \<and> TxCount (fst (unser v)) \<noteq> 0 \<and>
             (h = GetBlockHash (fst (unser v)) \<or> h = HashPrevBlock (Header (fst (unser v))))))"
proof (cases rule: load_step_cases[of e unser pow st])
  case (fill k v a st1 pre st2)
  have "blkIdxMap st2 h = Some q" using assms fill(6) by (simp add: step_state_def split: if_splits)
  then show ?thesis
    using InsertBlockIndex_facts(5)[OF fill(5), of h q] InsertBlockIndex_facts(5)[OF fill(4), of h q]
      InsertBlockIndex_facts(8)[OF fill(5), of h q] InsertBlockIndex_facts(8)[OF fill(4), of h q]
      fill(1,2,3) by auto
next
  case (skip k v st1)
  then show ?thesis
    using InsertBlockIndex_facts(5)[OF skip(4), of h q] InsertBlockIndex_facts(8)[OF skip(4), of h q] assms
    by (auto simp: step_state_def)
qed (use assms in \<open>auto simp: step_state_def\<close>)

lemma gets_node_iff:
  "gets_node st h = (case blkIdxMap st h of None \<Rightarrow> \<not> IsNull h | Some p \<Rightarrow> p \<noteq> None)"
  by (simp add: gets_node_def InsertBlockIndex_def split: option.splits)

lemma load_step_gets_node:
  assumes "gets_node st h"
  shows "gets_node (step_state (load_step unser pow e st)) h"
proof (cases "blkIdxMap st h")
  case None
  with assms have nn: "\<not> IsNull h" by (simp add: gets_node_iff)
  show ?thesis
  proof (cases "blkIdxMap (step_state (load_step unser pow e st)) h")
    case (Some q)
    from load_step_new_key[OF Some] None have "q \<noteq> None" by auto
    with Some show ?thesis by (simp add: gets_node_iff)
  qed (use nn in \<open>simp add: gets_node_iff\<close>)
next
  case (Some p)
  with assms have "p \<noteq> None" by (simp add: gets_node_iff)
  with load_step_map_mono[OF Some, of unser pow e] show ?thesis by (simp add: gets_node_iff)
qed


lemma load_step_store:
  assumes "map_of (dbw st) key = None"
  shows "map_of (dbw (step_state (load_step unser pow e st))) key = None"
proof (cases rule: load_step_cases[of e unser pow st])
  case (fill k v a st1 pre st2)
  have "dbw st2 = dbw st"
    using InsertBlockIndex_facts(1)[OF fill(5)] InsertBlockIndex_facts(1)[OF fill(4)] by simp
  then show ?thesis using fill(6) assms by (simp add: step_state_def)
next
  case (skip k v st1)
  then show ?thesis using InsertBlockIndex_facts(1)[OF skip(4)] assms by (simp add: step_state_def)
next
  case (zero k v)
  have "map_of (filter (\<lambda>e. fst e \<noteq> k) (dbw st)) key = None"
    using assms by (induction "dbw st") (auto simp: map_of_eq_None_iff)
  then show ?thesis using zero by (simp add: step_state_def dbw_Erase_def)
qed (use assms in \<open>auto simp: step_state_def\<close>)


lemma load_step_node_of_preserved:
  assumes wf: "wf_state st" and n: "node_of bi a st" and ag: "agrees unser bi e"
  shows "node_of bi a (step_state (load_step unser pow e st))"
proof (cases rule: load_step_cases[of e unser pow st])
  case (fill k v a' st1 pre st2)
  let ?r = "fst (unser v)"
  have r: "record_of unser e = ?r" using fill(2) by (simp add: record_of_def buffer_of_def)
  have wf1: "wf_state st1" using InsertBlockIndex_wf[OF wf fill(4)] .
  have wf2: "wf_state st2" using InsertBlockIndex_wf[OF wf1 fill(5)] .
  have n2: "node_of bi a st2"
    using InsertBlockIndex_node_of[OF InsertBlockIndex_node_of[OF n fill(4)] fill(5)] .
  have pre: "pre = lookup_ptr (blkIdxMap st2) (HashPrevBlock (Header ?r))"
    using InsertBlockIndex_facts(6)[OF fill(5)] .
  have m': "blkIdxMap st2 (GetBlockHash ?r) = Some (Some a')"
    using InsertBlockIndex_ptr(2)[OF wf fill(4)] InsertBlockIndex_facts(4)[OF fill(5)] by blast
  let ?st3 = "st2\<lparr>heap := (heap st2)[a' := ?r\<lparr>Prev := pre\<rparr>]\<rparr>"
  have "node_of bi a ?st3"
  proof (cases "a' = a")
    case True
    have "blkIdxMap st2 (GetBlockHash bi) = Some (Some a)" using n2 by (simp add: node_of_def)
    with m' True wf2 have "GetBlockHash ?r = GetBlockHash bi"
      unfolding wf_state_def by blast
    with ag r fill(1,2,3) have "?r = bi" by (simp add: agrees_def)
    with n2 True pre show ?thesis by (simp add: node_of_def)
  next
    case False
    with n2 show ?thesis by (simp add: node_of_def)
  qed
  then show ?thesis using fill(6) by (simp add: step_state_def)
next
  case (skip k v st1)
  then show ?thesis using InsertBlockIndex_node_of[OF n skip(4)] by (simp add: step_state_def)
next
  case (zero k v)
  then show ?thesis using n by (simp add: step_state_def node_of_def)
qed (use n in \<open>auto simp: step_state_def\<close>)


lemma load_step_node_of_established:
  assumes wf: "wf_state st" and e: "e = (Some (DbBlockIndex # ks), Some v)"
    and nz: "TxCount (fst (unser v)) \<noteq> 0" and nn: "gets_node st (GetBlockHash (fst (unser v)))"
  shows "\<exists>a. node_of (fst (unser v)) a (step_state (load_step unser pow e st))"
proof (cases rule: load_step_cases[of e unser pow st])
  case (fill k v' a st1 pre st2)
  let ?r = "fst (unser v)"
  have v: "v' = v" using fill(2) e by simp
  have wf1: "wf_state st1" using InsertBlockIndex_wf[OF wf fill(4)] .
  have pre: "pre = lookup_ptr (blkIdxMap st2) (HashPrevBlock (Header ?r))"
    using InsertBlockIndex_facts(6)[OF fill(5)] v by simp
  have m: "blkIdxMap st2 (GetBlockHash ?r) = Some (Some a)"
    using InsertBlockIndex_ptr(2)[OF wf fill(4)] InsertBlockIndex_facts(4)[OF fill(5)] v by blast
  have a: "a < length (heap st2)"
    using InsertBlockIndex_ptr(1)[OF wf fill(4)] InsertBlockIndex_facts(2)[OF fill(5)] by simp
  have z: "blkIdxMap st2 (HashPrevBlock (Header ?r)) = None \<longrightarrow> IsNull (HashPrevBlock (Header ?r))"
    using InsertBlockIndex_facts(7)[OF fill(5)] v by simp
  have "node_of ?r a (st2\<lparr>heap := (heap st2)[a := ?r\<lparr>Prev := pre\<rparr>]\<rparr>)"
    using m a z pre by (simp add: node_of_def)
  then show ?thesis using fill(6) v by (auto simp: step_state_def)
next
  case (skip k v' st1)
  then have "InsertBlockIndex (GetBlockHash (fst (unser v))) st = (None, st1)" using e by simp
  with nn show ?thesis by (simp add: gets_node_def)
qed (use e nz in \<open>auto simp: in_range_def\<close>)

lemma load_step_erased:
  assumes "e = (Some (DbBlockIndex # ks), Some v)" "TxCount (fst (unser v)) = 0"
  shows "load_step unser pow e st = Continue (st\<lparr>dbw := dbw_Erase (dbw st) (DbBlockIndex # ks)\<rparr>)"
  using assms by (simp add: load_step_def)

lemma map_of_dbw_Erase: "map_of (dbw_Erase d k) k = None"
  by (induction d) (auto simp: dbw_Erase_def)


lemma load_step_in_range_stop:
  assumes "in_range e" "load_step unser pow e st = Stop r st'"
  shows "r = Inr False"
  by (cases rule: load_step_cases[of e unser pow st]) (use assms in \<open>auto split: if_splits\<close>)

subsection \<open>The loop\<close>

lemma load_loop_invariant:
  assumes "I st"
    and "\<And>e s. e \<in> set (load_visits unser pow cs st) \<Longrightarrow> I s \<Longrightarrow> I (step_state (load_step unser pow e s))"
  shows "I (snd (load_loop unser pow cs st))"
  using assms
proof (induction cs arbitrary: st)
  case Nil
  then show ?case by simp
next
  case (Cons e cs)
  have "e \<in> set (load_visits unser pow (e # cs) st)"
    by (cases "load_step unser pow e st") simp_all
  then have s: "I (step_state (load_step unser pow e st))" using Cons.prems by blast
  show ?case
  proof (cases "load_step unser pow e st")
    case (Stop r st')
    with s show ?thesis by (simp add: step_state_def)
  next
    case (Continue st')
    with s have "I st'" by (simp add: step_state_def)
    then have "I (snd (load_loop unser pow cs st'))"
      using Cons.prems(2) Continue by (intro Cons.IH) auto
    with Continue show ?thesis by simp
  qed
qed

lemma load_visits_subset: "set (load_visits unser pow cs st) \<subseteq> set cs"
proof (induction cs arbitrary: st)
  case Nil
  then show ?case by simp
next
  case (Cons e cs)
  then show ?case by (cases "load_step unser pow e st") auto
qed

lemma scanned_Cons:
  "e \<in> set (scanned (x # cs)) \<Longrightarrow> in_range x \<and> (e = x \<or> e \<in> set (scanned cs))"
  by (cases "in_range x") (simp_all add: scanned_def)



lemma load_loop_wf:
  assumes "wf_state st"
  shows "wf_state (snd (load_loop unser pow cs st))"
proof (rule load_loop_invariant[where I = wf_state])
  show "wf_state st" by fact
next
  fix e and s :: loader_state
  assume "wf_state s"
  then show "wf_state (step_state (load_step unser pow e s))" by (rule load_step_wf)
qed

lemma load_loop_gets_node:
  assumes "gets_node st h"
  shows "gets_node (snd (load_loop unser pow cs st)) h"
proof (rule load_loop_invariant[where I = "\<lambda>s. gets_node s h"])
  show "gets_node st h" by fact
next
  fix e and s :: loader_state
  assume "gets_node s h"
  then show "gets_node (step_state (load_step unser pow e s)) h" by (rule load_step_gets_node)
qed



lemma load_loop_store:
  assumes "map_of (dbw st) key = None"
  shows "map_of (dbw (snd (load_loop unser pow cs st))) key = None"
proof (rule load_loop_invariant[where I = "\<lambda>s. map_of (dbw s) key = None"])
  show "map_of (dbw st) key = None" by fact
next
  fix e and s :: loader_state
  assume "map_of (dbw s) key = None"
  then show "map_of (dbw (step_state (load_step unser pow e s))) key = None"
    by (rule load_step_store)
qed

lemma load_loop_node_of_preserved:
  assumes "wf_state st" "node_of bi a st" "\<forall>x\<in>set (load_visits unser pow cs st). agrees unser bi x"
  shows "node_of bi a (snd (load_loop unser pow cs st))"
proof -
  have "wf_state (snd (load_loop unser pow cs st)) \<and> node_of bi a (snd (load_loop unser pow cs st))"
    by (rule load_loop_invariant[where I = "\<lambda>s. wf_state s \<and> node_of bi a s"])
       (use assms in \<open>auto intro: load_step_wf load_step_node_of_preserved\<close>)
  then show ?thesis ..
qed

text \<open>A record that the loop visits and does not skip has its node at the end.\<close>

lemma load_loop_node_of:
  assumes "wf_state st"
    "(Some (DbBlockIndex # ks), Some v) \<in> set (load_visits unser pow cs st)"
    "TxCount (fst (unser v)) \<noteq> 0" "gets_node st (GetBlockHash (fst (unser v)))"
    "\<forall>x\<in>set (load_visits unser pow cs st). agrees unser (fst (unser v)) x"
  shows "\<exists>a. node_of (fst (unser v)) a (snd (load_loop unser pow cs st))"
  using assms(1,2,4,5)
proof (induction cs arbitrary: st)
  case Nil
  then show ?case by simp
next
  case (Cons x cs)
  let ?e = "(Some (DbBlockIndex # ks), Some v)"
  show ?case
  proof (cases "load_step unser pow x st")
    case (Stop r s)
    with Cons.prems(2) have ex: "x = ?e" by simp
    from load_step_node_of_established[where pow = pow and unser = unser and v = v,
        OF Cons.prems(1) ex assms(3) Cons.prems(3)] Stop
    show ?thesis by (simp add: step_state_def)
  next
    case (Continue st1)
    have wf1: "wf_state st1" using load_step_wf[OF Cons.prems(1), of unser pow x] Continue
      by (simp add: step_state_def)
    have g1: "gets_node st1 (GetBlockHash (fst (unser v)))"
      using load_step_gets_node[OF Cons.prems(3), of unser pow x] Continue
      by (simp add: step_state_def)
    have ag: "\<forall>y\<in>set (load_visits unser pow cs st1). agrees unser (fst (unser v)) y"
      using Cons.prems(4) Continue by simp
    have fin: "snd (load_loop unser pow (x # cs) st) = snd (load_loop unser pow cs st1)"
      using Continue by simp
    from Cons.prems(2) Continue have "x = ?e \<or> ?e \<in> set (load_visits unser pow cs st1)"
      by auto
    then show ?thesis
    proof
      assume ex: "x = ?e"
      from load_step_node_of_established[where pow = pow and unser = unser and v = v,
          OF Cons.prems(1) ex assms(3) Cons.prems(3)] Continue
      obtain a where "node_of (fst (unser v)) a st1" by (auto simp: step_state_def)
      from load_loop_node_of_preserved[OF wf1 this ag]
      show ?thesis unfolding fin by blast
    next
      assume "?e \<in> set (load_visits unser pow cs st1)"
      from Cons.IH[OF wf1 this g1 ag] show ?thesis unfolding fin .
    qed
  qed
qed



text \<open>A record with transaction count zero that the loop visits is not in the store at
  the end.\<close>

lemma load_loop_erased:
  assumes "(Some (DbBlockIndex # ks), Some v) \<in> set (load_visits unser pow cs st)"
    "TxCount (fst (unser v)) = 0"
  shows "map_of (dbw (snd (load_loop unser pow cs st))) (DbBlockIndex # ks) = None"
  using assms(1)
proof (induction cs arbitrary: st)
  case Nil
  then show ?case by simp
next
  case (Cons x cs)
  let ?e = "(Some (DbBlockIndex # ks), Some v)"
  show ?case
  proof (cases "load_step unser pow x st")
    case (Stop r s)
    with Cons.prems have ex: "x = ?e" by simp
    from load_step_erased[where pow = pow and st = st and unser = unser and v = v, OF ex assms(2)] Stop
    show ?thesis by simp
  next
    case (Continue st1)
    from Cons.prems Continue have "x = ?e \<or> ?e \<in> set (load_visits unser pow cs st1)" by auto
    then show ?thesis
    proof
      assume ex: "x = ?e"
      from load_step_erased[where pow = pow and st = st and unser = unser and v = v, OF ex assms(2)]
        Continue
      have "map_of (dbw st1) (DbBlockIndex # ks) = None" by (auto simp: map_of_dbw_Erase)
      from load_loop_store[OF this] Continue show ?thesis by simp
    next
      assume "?e \<in> set (load_visits unser pow cs st1)"
      from Cons.IH[OF this] Continue show ?thesis by simp
    qed
  qed
qed

text \<open>Every entry of the map at the end was there at the start or belongs to the hash
  or the previous hash of a visited record with a transaction count other than zero.\<close>

lemma load_loop_new_keys:
  assumes "blkIdxMap (snd (load_loop unser pow cs st)) h \<noteq> None"
  shows "blkIdxMap st h \<noteq> None \<or>
         (\<exists>k v. (Some k, Some v) \<in> set (load_visits unser pow cs st) \<and> in_range (Some k, Some v) \<and>
            TxCount (fst (unser v)) \<noteq> 0 \<and>
            (h = GetBlockHash (fst (unser v)) \<or> h = HashPrevBlock (Header (fst (unser v)))))"
proof -
  let ?new = "\<exists>k v. (Some k, Some v) \<in> set (load_visits unser pow cs st) \<and> in_range (Some k, Some v) \<and>
            TxCount (fst (unser v)) \<noteq> 0 \<and>
            (h = GetBlockHash (fst (unser v)) \<or> h = HashPrevBlock (Header (fst (unser v))))"
  let ?I = "\<lambda>s. blkIdxMap s h \<noteq> None \<longrightarrow> blkIdxMap st h \<noteq> None \<or> ?new"
  have "?I (snd (load_loop unser pow cs st))"
  proof (rule load_loop_invariant[where I = ?I])
    show "?I st" by simp
  next
    fix e and s :: loader_state
    assume e: "e \<in> set (load_visits unser pow cs st)" and s: "?I s"
    show "?I (step_state (load_step unser pow e s))"
    proof
      assume "blkIdxMap (step_state (load_step unser pow e s)) h \<noteq> None"
      then obtain q where "blkIdxMap (step_state (load_step unser pow e s)) h = Some q" by blast
      from load_step_new_key[OF this] e s
      show "blkIdxMap st h \<noteq> None \<or> ?new" by blast
    qed
  qed
  with assms show ?thesis by blast
qed

text \<open>When the loop returns true it has visited every entry of the scanned range.\<close>

lemma load_true_visits_scanned:
  assumes "fst (load_loop unser pow cs st) = Inr True" "e \<in> set (scanned cs)"
  shows "e \<in> set (load_visits unser pow cs st)"
  using assms
proof (induction cs arbitrary: st)
  case Nil
  then show ?case by (simp add: scanned_def)
next
  case (Cons x cs)
  from scanned_Cons[OF Cons.prems(2)]
  have xr: "in_range x" and disj: "e = x \<or> e \<in> set (scanned cs)" by auto
  show ?case
  proof (cases "load_step unser pow x st")
    case (Stop r s)
    with load_step_in_range_stop[OF xr Stop] Cons.prems(1) show ?thesis by simp
  next
    case (Continue st1)
    from disj show ?thesis
    proof
      assume "e = x"
      with Continue show ?thesis by simp
    next
      assume "e \<in> set (scanned cs)"
      from Cons.IH[OF _ this, of st1] Cons.prems(1) Continue show ?thesis by simp
    qed
  qed
qed

subsection \<open>The load\<close>

text \<open>A load that returns true has visited every entry of the block index table.\<close>

lemma LoadBlockIndexGuts_true_visits_table:
  assumes "fst (LoadBlockIndexGuts unser pow st) = Inr True" "e \<in> set (in_table st)"
  shows "e \<in> set (visited unser pow st)"
  using assms unfolding LoadBlockIndexGuts_def in_table_def visited_def
  by (rule load_true_visits_scanned)



text \<open>
  C6 (amended): for every block index record with transaction count zero that the scan
  of the load visits, the loader erases the record's key from the store, and the
  iteration that visits it (in any state \<open>s\<close>) does nothing else: it changes neither
  the map nor the heap.  After the load, whatever it returns, the key is absent from
  the store.  A hash has an entry in the map after the load only if it had one before
  the load or a visited record with a transaction count other than zero has it as its
  hash or as its previous hash; this is so for the hash of the erased record too.
\<close>

theorem C6_zero_tx_record_erased:
  assumes "(Some (DbBlockIndex # ks), Some v) \<in> set (visited unser pow st)"
    and "TxCount (fst (unser v)) = 0"
  shows "map_of (dbw (snd (LoadBlockIndexGuts unser pow st))) (DbBlockIndex # ks) = None \<and>
         step_state (load_step unser pow (Some (DbBlockIndex # ks), Some v) s) =
           s\<lparr>dbw := dbw_Erase (dbw s) (DbBlockIndex # ks)\<rparr> \<and>
         (\<forall>h. blkIdxMap (snd (LoadBlockIndexGuts unser pow st)) h \<noteq> None \<longrightarrow>
            blkIdxMap st h \<noteq> None \<or>
            (\<exists>k' v'. (Some k', Some v') \<in> set (visited unser pow st) \<and>
               in_range (Some k', Some v') \<and> TxCount (fst (unser v')) \<noteq> 0 \<and>
               (h = GetBlockHash (fst (unser v')) \<or>
                h = HashPrevBlock (Header (fst (unser v'))))))"
proof (intro conjI allI impI)
  show "map_of (dbw (snd (LoadBlockIndexGuts unser pow st))) (DbBlockIndex # ks) = None"
    unfolding LoadBlockIndexGuts_def
    using load_loop_erased[where unser = unser and pow = pow and v = v, OF _ assms(2)] assms(1)
    by (simp add: visited_def)
  show "step_state (load_step unser pow (Some (DbBlockIndex # ks), Some v) s) =
           s\<lparr>dbw := dbw_Erase (dbw s) (DbBlockIndex # ks)\<rparr>"
    using load_step_erased[where pow = pow and st = s and unser = unser and v = v and ks = ks,
        OF refl assms(2)]
    by (simp add: step_state_def)
next
  fix h
  assume "blkIdxMap (snd (LoadBlockIndexGuts unser pow st)) h \<noteq> None"
  then show "blkIdxMap st h \<noteq> None \<or>
            (\<exists>k' v'. (Some k', Some v') \<in> set (visited unser pow st) \<and>
               in_range (Some k', Some v') \<and> TxCount (fst (unser v')) \<noteq> 0 \<and>
               (h = GetBlockHash (fst (unser v')) \<or>
                h = HashPrevBlock (Header (fst (unser v')))))"
    unfolding LoadBlockIndexGuts_def visited_def by (rule load_loop_new_keys)
qed

text \<open>The same for \<open>LoadBlockIndexGuts\<close> on a state.\<close>

lemma visited_node_of:
  assumes "wf_state st"
    "(Some (DbBlockIndex # ks), Some v) \<in> set (visited unser pow st)"
    "TxCount (fst (unser v)) \<noteq> 0" "gets_node st (GetBlockHash (fst (unser v)))"
    "\<forall>x\<in>set (visited unser pow st). agrees unser (fst (unser v)) x"
  shows "\<exists>a. node_of (fst (unser v)) a (snd (LoadBlockIndexGuts unser pow st))"
  using load_loop_node_of[where unser = unser and pow = pow and v = v and ks = ks,
      OF assms(1) _ assms(3,4)] assms(2,5)
  by (simp add: visited_def LoadBlockIndexGuts_def)

lemma loaded_parent_entry:
  assumes "wf_state st" "gets_node st h"
    "blkIdxMap (snd (LoadBlockIndexGuts unser pow st)) h = None \<longrightarrow> IsNull h"
  shows "\<exists>a. blkIdxMap (snd (LoadBlockIndexGuts unser pow st)) h = Some (Some a)"
proof -
  let ?st' = "snd (LoadBlockIndexGuts unser pow st)"
  have wf: "wf_state ?st'" unfolding LoadBlockIndexGuts_def using load_loop_wf[OF assms(1)] .
  have g: "gets_node ?st' h" unfolding LoadBlockIndexGuts_def using load_loop_gets_node[OF assms(2)] .
  show ?thesis
  proof (cases "blkIdxMap ?st' h")
    case None
    with g assms(3) show ?thesis by (simp add: gets_node_iff)
  next
    case (Some p)
    with wf show ?thesis by (auto simp: wf_state_def)
  qed
qed

text \<open>
  C5 (amended): let the starting state be well formed (every entry of the map is a
  pointer, not \<open>nil\<close>, to a node of the heap, and no two hashes share a node), and let
  the scan of the load visit a block index record A (hash \<open>h1\<close>, previous hash \<open>h2\<close>)
  with a transaction count other than zero, where \<open>InsertBlockIndex\<close> returns a node for
  \<open>h1\<close> and for \<open>h2\<close> in the starting state, and no visited record with a transaction
  count other than zero has the hash \<open>h1\<close> and other contents.  Then after the load,
  whatever it returns, the map holds a node for \<open>h1\<close> and one node for \<open>h2\<close>, which no
  other hash shares, and the parent reference of the node of \<open>h1\<close> is the node of
  \<open>h2\<close>.  For every record B of hash \<open>h2\<close> that the scan visits, before A or after it,
  with a transaction count other than zero and the only such record under \<open>h2\<close>, that
  same node holds the fields of B: the stub made for \<open>h2\<close> when A comes first is the
  node filled in when B is visited.
\<close>

theorem C5_parent_link_shared_node:
  assumes "wf_state st"
    and "(Some (DbBlockIndex # ksA), Some vA) \<in> set (visited unser pow st)"
    and "GetBlockHash (fst (unser vA)) = h1" and "HashPrevBlock (Header (fst (unser vA))) = h2"
    and "TxCount (fst (unser vA)) \<noteq> 0"
    and "gets_node st h1" and "gets_node st h2"
    and "\<forall>x\<in>set (visited unser pow st). agrees unser (fst (unser vA)) x"
  shows "\<exists>a1 a2.
           blkIdxMap (snd (LoadBlockIndexGuts unser pow st)) h1 = Some (Some a1) \<and>
           blkIdxMap (snd (LoadBlockIndexGuts unser pow st)) h2 = Some (Some a2) \<and>
           (\<forall>h. blkIdxMap (snd (LoadBlockIndexGuts unser pow st)) h = Some (Some a2) \<longrightarrow> h = h2) \<and>
           Prev (heap (snd (LoadBlockIndexGuts unser pow st)) ! a1) = Some a2 \<and>
           blockHash (heap (snd (LoadBlockIndexGuts unser pow st)) ! a1) = h1 \<and>
           (\<forall>ksB vB.
              (Some (DbBlockIndex # ksB), Some vB) \<in> set (visited unser pow st) \<and>
              GetBlockHash (fst (unser vB)) = h2 \<and> TxCount (fst (unser vB)) \<noteq> 0 \<and>
              (\<forall>x\<in>set (visited unser pow st). agrees unser (fst (unser vB)) x)
              \<longrightarrow> heap (snd (LoadBlockIndexGuts unser pow st)) ! a2 =
                    (fst (unser vB))\<lparr>Prev := lookup_ptr (blkIdxMap (snd (LoadBlockIndexGuts unser pow st)))
                                               (HashPrevBlock (Header (fst (unser vB))))\<rparr>)"
proof -
  let ?st' = "snd (LoadBlockIndexGuts unser pow st)"
  from visited_node_of[OF assms(1,2,5)] assms(3,6,8)
  obtain a1 where a1: "node_of (fst (unser vA)) a1 ?st'" by blast
  have "blkIdxMap ?st' h2 = None \<longrightarrow> IsNull h2" using a1 assms(4) by (simp add: node_of_def)
  from loaded_parent_entry[OF assms(1,7) this]
  obtain a2 where m2: "blkIdxMap ?st' h2 = Some (Some a2)" by blast
  have wf: "wf_state ?st'" unfolding LoadBlockIndexGuts_def using load_loop_wf[OF assms(1)] .
  have m1: "blkIdxMap ?st' h1 = Some (Some a1)" using a1 assms(3) by (simp add: node_of_def)
  have u: "\<forall>h. blkIdxMap ?st' h = Some (Some a2) \<longrightarrow> h = h2"
    using wf m2 unfolding wf_state_def by blast
  have p: "Prev (heap ?st' ! a1) = Some a2"
    using a1 m2 assms(4) by (simp add: node_of_def lookup_ptr_def)
  have b: "blockHash (heap ?st' ! a1) = h1"
    using a1 assms(3) by (simp add: node_of_def GetBlockHash_def)
  have backfill: "heap ?st' ! a2 =
        (fst (unser vB))\<lparr>Prev := lookup_ptr (blkIdxMap ?st') (HashPrevBlock (Header (fst (unser vB))))\<rparr>"
    if "(Some (DbBlockIndex # ksB), Some vB) \<in> set (visited unser pow st) \<and>
        GetBlockHash (fst (unser vB)) = h2 \<and> TxCount (fst (unser vB)) \<noteq> 0 \<and>
        (\<forall>x\<in>set (visited unser pow st). agrees unser (fst (unser vB)) x)" for ksB vB
  proof -
    from visited_node_of[OF assms(1), of ksB vB unser pow] that assms(7)
    obtain b2 where b2: "node_of (fst (unser vB)) b2 ?st'" by blast
    with that m2 have "b2 = a2" by (simp add: node_of_def)
    with b2 show ?thesis by (simp add: node_of_def)
  qed
  show ?thesis using m1 m2 u p b backfill by blast
qed


subsection \<open>The loader on concrete stores\<close>

lemmas sample_eval = load_step_def InsertBlockIndex_def sample_Unserialize_def
  sample_CheckProofOfWork_def empty_state_def Let_def NewBlockIndex_def NewBlockHeader_def
  GetBlockHash_def IsNull_def zeroHash_def fill_newIndex_def sample_entry_def sample_row_def
  sample_state_def strict_CheckProofOfWork_def LoadBlockIndexGuts_def cursor_Seek_def
  dbw_Iterator_def

lemmas visits_eval = visited_def in_table_def scanned_def in_range_def gets_node_def

lemma bytes_less_replicate: "bytes_less (replicate n a) (replicate n b) = (0 < n \<and> a < b)"
  by (induction n) auto

lemma cursor_of_sample_rows:
  "cursor_Seek (dbw_Iterator (sample_row h p b n # rest)) (DbBlockIndex # zeroHash) =
   sample_entry h p b n # dbw_Iterator rest"
  by (simp add: cursor_Seek_def dbw_Iterator_def sample_row_def sample_entry_def zeroHash_def
      bytes_less_replicate)

lemma wf_state_empty: "wf_state (empty_state d)"
  by (simp add: wf_state_def empty_state_def)

text \<open>The result of an iteration, and of the loop, does not depend on the error of
  \<open>Unserialize\<close>.\<close>

lemma load_step_ignores_decode_error:
  "load_step (\<lambda>v. (fst (unser v), None)) pow e st = load_step unser pow e st"
  by (simp add: load_step_def cong: option.case_cong list.case_cong if_cong)

lemma load_loop_ignores_decode_error:
  "load_loop (\<lambda>v. (fst (unser v), None)) pow cs st = load_loop unser pow cs st"
  by (induction cs arbitrary: st)
     (simp_all add: load_step_ignores_decode_error cong: step_result.case_cong)

text \<open>
  C2 (the code at the failing input): the first record of the store does not decode; the
  load does not stop there: it goes on to the next record, enters its node into the map
  and returns true.
\<close>

theorem C2_undecodable_record_load_goes_on:
  "snd (sample_Unserialize [7]) = Some ErrDecode \<and>
   fst (LoadBlockIndexGuts sample_Unserialize sample_CheckProofOfWork
          (empty_state [(DbBlockIndex # replicate 32 1, [7]), sample_row 2 0 255 1])) = Inr True \<and>
   blkIdxMap (snd (LoadBlockIndexGuts sample_Unserialize sample_CheckProofOfWork
          (empty_state [(DbBlockIndex # replicate 32 1, [7]), sample_row 2 0 255 1])))
     (replicate 32 2) = Some (Some 0)"
  by (simp add: LoadBlockIndexGuts_def cursor_Seek_def dbw_Iterator_def bytes_less_replicate
      sample_eval)


text \<open>Counterexample to C6, and the other grounds on which the hash of an erased record
  has a node.  The record of hash 1.. has transaction count zero and the load returns
  true.  (1) The record of hash 2.. names 1.. as its previous block: the map holds a
  node for 1.. afterwards, the stub made for the parent reference.  (2) The map held a
  node for 1.. before the load: it still does.  (3) Another row decodes to a record of
  hash 1.. with transaction count one: the map holds its node.\<close>

theorem C6_counterexample:
  "TxCount (fst (sample_Unserialize [1, 0, 255, 0])) = 0 \<and>
   fst (LoadBlockIndexGuts sample_Unserialize sample_CheckProofOfWork
      (empty_state [sample_row 1 0 255 0, sample_row 2 1 255 1])) = Inr True \<and>
   blkIdxMap (snd (LoadBlockIndexGuts sample_Unserialize sample_CheckProofOfWork
      (empty_state [sample_row 1 0 255 0, sample_row 2 1 255 1]))) (replicate 32 1) = Some (Some 1) \<and>
   fst (LoadBlockIndexGuts sample_Unserialize sample_CheckProofOfWork
      (sample_state [sample_row 1 0 255 0] [NewBlockIndex NewBlockHeader] [(replicate 32 1, Some 0)])) = Inr True \<and>
   blkIdxMap (snd (LoadBlockIndexGuts sample_Unserialize sample_CheckProofOfWork
      (sample_state [sample_row 1 0 255 0] [NewBlockIndex NewBlockHeader] [(replicate 32 1, Some 0)]))) (replicate 32 1) = Some (Some 0) \<and>
   fst (LoadBlockIndexGuts sample_Unserialize sample_CheckProofOfWork
      (empty_state [sample_row 1 0 255 0, (DbBlockIndex # replicate 32 2, [1, 0, 255, 1])])) = Inr True \<and>
   blkIdxMap (snd (LoadBlockIndexGuts sample_Unserialize sample_CheckProofOfWork
      (empty_state [sample_row 1 0 255 0, (DbBlockIndex # replicate 32 2, [1, 0, 255, 1])]))) (replicate 32 1) = Some (Some 0)"
  by (simp add: sample_eval bytes_less_replicate)

text \<open>Counterexample to C5, and the cases that the amended claim leaves out.  (1) A (hash
  1.., previous hash 2..) has transaction count zero: the load returns true and the map
  holds no node for 1...  (2) The hash of A is null: A is skipped, no node for it.  (3)
  The hash of B, the previous hash of A, is null: B is skipped, no node for it.  (4) The
  map holds a \<open>nil\<close> entry under 1..: A is skipped and the entry stays \<open>nil\<close>.  (5) In
  the map 1.. and 9.. share the node 0, and a record of hash 9.. is visited after A:
  the parent reference of the node of 1.. is the node 3 of the previous hash of that
  record, not the node 1 of 2...  (6) A second row decodes to a record of hash 1.. with
  previous hash 7..: the same.  (7) A record whose check fails comes first: the load
  returns false before it visits A (hash 5.., previous hash 4..), no node for 5...\<close>

theorem C5_counterexample:
  "fst (LoadBlockIndexGuts sample_Unserialize sample_CheckProofOfWork
      (empty_state [sample_row 1 2 255 0, sample_row 2 3 255 1])) = Inr True \<and>
   blkIdxMap (snd (LoadBlockIndexGuts sample_Unserialize sample_CheckProofOfWork
      (empty_state [sample_row 1 2 255 0, sample_row 2 3 255 1]))) (replicate 32 1) = None \<and>
   fst (LoadBlockIndexGuts sample_Unserialize sample_CheckProofOfWork
      (empty_state [sample_row 0 2 255 1, sample_row 2 3 255 1])) = Inr True \<and>
   blkIdxMap (snd (LoadBlockIndexGuts sample_Unserialize sample_CheckProofOfWork
      (empty_state [sample_row 0 2 255 1, sample_row 2 3 255 1]))) (replicate 32 0) = None \<and>
   fst (LoadBlockIndexGuts sample_Unserialize sample_CheckProofOfWork
      (empty_state [sample_row 0 3 255 1, sample_row 1 0 255 1])) = Inr True \<and>
   blkIdxMap (snd (LoadBlockIndexGuts sample_Unserialize sample_CheckProofOfWork
      (empty_state [sample_row 0 3 255 1, sample_row 1 0 255 1]))) (replicate 32 0) = None \<and>
   fst (LoadBlockIndexGuts sample_Unserialize sample_CheckProofOfWork
      (sample_state [sample_row 1 2 255 1, sample_row 2 3 255 1] [] [(replicate 32 1, None)])) = Inr True \<and>
   blkIdxMap (snd (LoadBlockIndexGuts sample_Unserialize sample_CheckProofOfWork
      (sample_state [sample_row 1 2 255 1, sample_row 2 3 255 1] [] [(replicate 32 1, None)]))) (replicate 32 1) = Some None \<and>
   fst (LoadBlockIndexGuts sample_Unserialize sample_CheckProofOfWork
      (sample_state [sample_row 1 2 255 1, sample_row 2 3 255 1, sample_row 9 7 255 1] [NewBlockIndex NewBlockHeader] [(replicate 32 1, Some 0), (replicate 32 9, Some 0)])) = Inr True \<and>
   blkIdxMap (snd (LoadBlockIndexGuts sample_Unserialize sample_CheckProofOfWork
      (sample_state [sample_row 1 2 255 1, sample_row 2 3 255 1, sample_row 9 7 255 1] [NewBlockIndex NewBlockHeader] [(replicate 32 1, Some 0), (replicate 32 9, Some 0)]))) (replicate 32 1) = Some (Some 0) \<and>
   blkIdxMap (snd (LoadBlockIndexGuts sample_Unserialize sample_CheckProofOfWork
      (sample_state [sample_row 1 2 255 1, sample_row 2 3 255 1, sample_row 9 7 255 1] [NewBlockIndex NewBlockHeader] [(replicate 32 1, Some 0), (replicate 32 9, Some 0)]))) (replicate 32 2) = Some (Some 1) \<and>
   Prev (heap (snd (LoadBlockIndexGuts sample_Unserialize sample_CheckProofOfWork
      (sample_state [sample_row 1 2 255 1, sample_row 2 3 255 1, sample_row 9 7 255 1] [NewBlockIndex NewBlockHeader] [(replicate 32 1, Some 0), (replicate 32 9, Some 0)]))) ! 0) = Some 3 \<and>
   fst (LoadBlockIndexGuts sample_Unserialize sample_CheckProofOfWork
      (empty_state [sample_row 1 2 255 1, sample_row 2 3 255 1, (DbBlockIndex # replicate 32 5, [1, 7, 255, 1])])) = Inr True \<and>
   blkIdxMap (snd (LoadBlockIndexGuts sample_Unserialize sample_CheckProofOfWork
      (empty_state [sample_row 1 2 255 1, sample_row 2 3 255 1, (DbBlockIndex # replicate 32 5, [1, 7, 255, 1])]))) (replicate 32 1) = Some (Some 0) \<and>
   blkIdxMap (snd (LoadBlockIndexGuts sample_Unserialize sample_CheckProofOfWork
      (empty_state [sample_row 1 2 255 1, sample_row 2 3 255 1, (DbBlockIndex # replicate 32 5, [1, 7, 255, 1])]))) (replicate 32 2) = Some (Some 1) \<and>
   Prev (heap (snd (LoadBlockIndexGuts sample_Unserialize sample_CheckProofOfWork
      (empty_state [sample_row 1 2 255 1, sample_row 2 3 255 1, (DbBlockIndex # replicate 32 5, [1, 7, 255, 1])]))) ! 0) = Some 3 \<and>
   fst (LoadBlockIndexGuts sample_Unserialize sample_CheckProofOfWork
      (empty_state [sample_row 3 0 2 1, sample_row 4 9 255 1, sample_row 5 4 255 1])) = Inr False \<and>
   blkIdxMap (snd (LoadBlockIndexGuts sample_Unserialize sample_CheckProofOfWork
      (empty_state [sample_row 3 0 2 1, sample_row 4 9 255 1, sample_row 5 4 255 1]))) (replicate 32 5) = None"
  by (simp add: sample_eval bytes_less_replicate)


subsection \<open>Witnesses\<close>


text \<open>Witness of C6 (amended): the store holds a record with transaction count zero and an
  unrelated record; after the load the first is in neither the store nor the map.\<close>

theorem C6_zero_tx_record_erased_witness:
  "sample_entry 1 0 255 0 \<in> set (visited sample_Unserialize sample_CheckProofOfWork
          (empty_state [sample_row 1 0 255 0, sample_row 2 3 255 1])) \<and>
   TxCount (fst (sample_Unserialize [1, 0, 255, 0])) = 0 \<and>
   map_of (dbw (empty_state [sample_row 1 0 255 0, sample_row 2 3 255 1]))
     (DbBlockIndex # replicate 32 1) \<noteq> None \<and>
   map_of (dbw (snd (LoadBlockIndexGuts sample_Unserialize sample_CheckProofOfWork
          (empty_state [sample_row 1 0 255 0, sample_row 2 3 255 1]))))
     (DbBlockIndex # replicate 32 1) = None \<and>
   blkIdxMap (snd (LoadBlockIndexGuts sample_Unserialize sample_CheckProofOfWork
          (empty_state [sample_row 1 0 255 0, sample_row 2 3 255 1]))) (replicate 32 1) = None"
proof -
  let ?st = "empty_state [sample_row 1 0 255 0, sample_row 2 3 255 1]"
  let ?st' = "snd (LoadBlockIndexGuts sample_Unserialize sample_CheckProofOfWork ?st)"
  have v: "visited sample_Unserialize sample_CheckProofOfWork ?st =
             [(Some (DbBlockIndex # replicate 32 1), Some [1, 0, 255, 0]),
              (Some (DbBlockIndex # replicate 32 2), Some [2, 3, 255, 1])]"
    by (simp add: visits_eval sample_eval bytes_less_replicate)
  have e: "(Some (DbBlockIndex # replicate 32 1), Some [1, 0, 255, 0])
             \<in> set (visited sample_Unserialize sample_CheckProofOfWork ?st)"
    by (simp add: v)
  have n: "TxCount (fst (sample_Unserialize [1, 0, 255, 0])) = 0"
    by (simp add: sample_eval)
  have b: "map_of (dbw ?st) (DbBlockIndex # replicate 32 1) \<noteq> None"
    by (simp add: empty_state_def sample_row_def)
  note r = C6_zero_tx_record_erased[where unser = sample_Unserialize
      and pow = sample_CheckProofOfWork and s = ?st, OF e n]
  have gone: "map_of (dbw ?st') (DbBlockIndex # replicate 32 1) = None" using r by blast
  have "blkIdxMap ?st' (replicate 32 1) = None"
  proof (rule ccontr)
    assume "blkIdxMap ?st' (replicate 32 1) \<noteq> None"
    with r have "blkIdxMap ?st (replicate 32 1) \<noteq> None \<or>
            (\<exists>k' v'. (Some k', Some v') \<in> set (visited sample_Unserialize sample_CheckProofOfWork ?st) \<and>
               in_range (Some k', Some v') \<and> TxCount (fst (sample_Unserialize v')) \<noteq> 0 \<and>
               (replicate 32 1 = GetBlockHash (fst (sample_Unserialize v')) \<or>
                replicate 32 1 = HashPrevBlock (Header (fst (sample_Unserialize v')))))"
      by blast
    moreover have "blkIdxMap ?st (replicate 32 1) = None" by (simp add: empty_state_def)
    ultimately obtain k' v' where
      mem: "(Some k', Some v') \<in> set (visited sample_Unserialize sample_CheckProofOfWork ?st)"
      and nz: "TxCount (fst (sample_Unserialize v')) \<noteq> 0"
      and hp: "replicate 32 1 = GetBlockHash (fst (sample_Unserialize v')) \<or>
               replicate 32 1 = HashPrevBlock (Header (fst (sample_Unserialize v')))"
      by blast
    from mem have "v' = [1, 0, 255, 0] \<or> v' = [2, 3, 255, 1]" unfolding v by auto
    then show False
    proof
      assume "v' = [1, 0, 255, 0]"
      with nz n show False by simp
    next
      assume "v' = [2, 3, 255, 1]"
      with hp show False by (simp add: sample_eval)
    qed
  qed
  with e n b gone show ?thesis unfolding sample_entry_def by blast
qed

text \<open>Witness of C5 (amended): the store holds the child (hash 1.., previous hash 2..),
  visited first, and its parent (hash 2.., previous hash 3..); the map is empty.\<close>

theorem C5_parent_link_shared_node_witness:
  "wf_state (empty_state [sample_row 1 2 255 1, sample_row 2 3 255 1]) \<and>
   sample_entry 1 2 255 1 \<in> set (visited sample_Unserialize sample_CheckProofOfWork
          (empty_state [sample_row 1 2 255 1, sample_row 2 3 255 1])) \<and>
   sample_entry 2 3 255 1 \<in> set (visited sample_Unserialize sample_CheckProofOfWork
          (empty_state [sample_row 1 2 255 1, sample_row 2 3 255 1])) \<and>
   gets_node (empty_state [sample_row 1 2 255 1, sample_row 2 3 255 1]) (replicate 32 1) \<and>
   gets_node (empty_state [sample_row 1 2 255 1, sample_row 2 3 255 1]) (replicate 32 2) \<and>
   (\<exists>a1 a2.
      blkIdxMap (snd (LoadBlockIndexGuts sample_Unserialize sample_CheckProofOfWork
          (empty_state [sample_row 1 2 255 1, sample_row 2 3 255 1]))) (replicate 32 1) = Some (Some a1) \<and>
      blkIdxMap (snd (LoadBlockIndexGuts sample_Unserialize sample_CheckProofOfWork
          (empty_state [sample_row 1 2 255 1, sample_row 2 3 255 1]))) (replicate 32 2) = Some (Some a2) \<and>
      Prev (heap (snd (LoadBlockIndexGuts sample_Unserialize sample_CheckProofOfWork
          (empty_state [sample_row 1 2 255 1, sample_row 2 3 255 1]))) ! a1) = Some a2 \<and>
      heap (snd (LoadBlockIndexGuts sample_Unserialize sample_CheckProofOfWork
          (empty_state [sample_row 1 2 255 1, sample_row 2 3 255 1]))) ! a2 =
        (fst (sample_Unserialize [2, 3, 255, 1]))
          \<lparr>Prev := lookup_ptr (blkIdxMap (snd (LoadBlockIndexGuts sample_Unserialize
              sample_CheckProofOfWork (empty_state [sample_row 1 2 255 1, sample_row 2 3 255 1]))))
              (replicate 32 3)\<rparr>)"
proof -
  let ?st = "empty_state [sample_row 1 2 255 1, sample_row 2 3 255 1]"
  let ?st' = "snd (LoadBlockIndexGuts sample_Unserialize sample_CheckProofOfWork ?st)"
  let ?A = "fst (sample_Unserialize [1, 2, 255, 1])"
  let ?B = "fst (sample_Unserialize [2, 3, 255, 1])"
  have w: "wf_state ?st" by (rule wf_state_empty)
  have v: "visited sample_Unserialize sample_CheckProofOfWork ?st =
             [(Some (DbBlockIndex # replicate 32 1), Some [1, 2, 255, 1]),
              (Some (DbBlockIndex # replicate 32 2), Some [2, 3, 255, 1])]"
    by (simp add: visits_eval sample_eval bytes_less_replicate)
  have eA: "(Some (DbBlockIndex # replicate 32 1), Some [1, 2, 255, 1])
              \<in> set (visited sample_Unserialize sample_CheckProofOfWork ?st)"
    and eB: "(Some (DbBlockIndex # replicate 32 2), Some [2, 3, 255, 1])
              \<in> set (visited sample_Unserialize sample_CheckProofOfWork ?st)"
    by (simp_all add: v)
  have hA: "GetBlockHash ?A = replicate 32 1" and pA: "HashPrevBlock (Header ?A) = replicate 32 2"
    and hB: "GetBlockHash ?B = replicate 32 2" and pB: "HashPrevBlock (Header ?B) = replicate 32 3"
    and nA: "TxCount ?A \<noteq> 0" and nB: "TxCount ?B \<noteq> 0"
    by (simp_all add: sample_eval)
  have g1: "gets_node ?st (replicate 32 1)" and g2: "gets_node ?st (replicate 32 2)"
    by (simp_all add: visits_eval sample_eval)
  have agA: "\<forall>x\<in>set (visited sample_Unserialize sample_CheckProofOfWork ?st). agrees sample_Unserialize ?A x"
    and agB: "\<forall>x\<in>set (visited sample_Unserialize sample_CheckProofOfWork ?st). agrees sample_Unserialize ?B x"
    unfolding v by (simp_all add: agrees_def record_of_def buffer_of_def sample_eval)
  from C5_parent_link_shared_node[where unser = sample_Unserialize and pow = sample_CheckProofOfWork,
      OF w eA hA pA nA g1 g2 agA]
  obtain a1 a2 where r: "blkIdxMap ?st' (replicate 32 1) = Some (Some a1)"
      "blkIdxMap ?st' (replicate 32 2) = Some (Some a2)"
      "Prev (heap ?st' ! a1) = Some a2"
    and bf: "\<And>ksB vB. (Some (DbBlockIndex # ksB), Some vB)
                \<in> set (visited sample_Unserialize sample_CheckProofOfWork ?st) \<and>
              GetBlockHash (fst (sample_Unserialize vB)) = replicate 32 2 \<and>
              TxCount (fst (sample_Unserialize vB)) \<noteq> 0 \<and>
              (\<forall>x\<in>set (visited sample_Unserialize sample_CheckProofOfWork ?st).
                  agrees sample_Unserialize (fst (sample_Unserialize vB)) x)
              \<Longrightarrow> heap ?st' ! a2 =
                    (fst (sample_Unserialize vB))\<lparr>Prev := lookup_ptr (blkIdxMap ?st')
                        (HashPrevBlock (Header (fst (sample_Unserialize vB))))\<rparr>"
    by blast
  from bf[of "replicate 32 2" "[2, 3, 255, 1]"] eB hB nB agB
  have "heap ?st' ! a2 = ?B\<lparr>Prev := lookup_ptr (blkIdxMap ?st') (replicate 32 3)\<rparr>"
    unfolding pB by blast
  with w eA eB g1 g2 r show ?thesis unfolding sample_entry_def by blast
qed


end
